theory Spec2Isabelle
  imports
    Complex_Main
    "HOL-Library.Word"
    "HOL-Library.Log_Nat"
    "HOL-Library.Char_ord"
    "HOL-Library.List_Lexorder"
    "HOL-Library.Multiset"
begin

unbundle bit_operations_syntax

section \<open>The Linux joystick module of GLFW (src/linux\_joystick.c)\<close>

text \<open>
  The module keeps a table of joystick slots in the global \<open>_glfw.linux_js\<close>, fills it
  from the device files \<open>/dev/input/jsN\<close>, and polls the open descriptors. The model
  below threads one record, \<open>world\<close>, through every function: it holds the module's
  globals together with the part of the operating system the module talks to (device
  files, open descriptors, the inotify queue) and the calls the module makes into the
  host library (\<open>_glfwInputJoystickChange\<close>, \<open>_glfwInputError\<close>). The code inside
  \<open>#if defined(__linux__)\<close> is the code modelled.

  A function of the source becomes a function from the world to a result and the world
  it leaves. Where the C execution would leave defined behaviour (a \<open>NULL\<close> pointer
  read, a store past the end of a block) the result is a \<open>fault\<close>. The four functions
  of the platform API at the end of the file do nothing to the state but call
  \<open>pollJoystickEvents\<close>; \<open>_glfwTerminateJoysticksLinux\<close>, which ends the life of the table
  and writes no member of it, is not modelled.
\<close>

subsection \<open>Constants of the headers\<close>

text \<open>
  Modelled from the spec: the headers \<open>GLFW/glfw3.h\<close>, \<open>linux/joystick.h\<close> and
  \<open>errno.h\<close> are not under src; the constants below carry the values those headers give
  on Linux. \<open>GLFW_JOYSTICK_1\<close> is 0; \<open>GLFW_JOYSTICK_LAST\<close> is not fixed here: the table
  \<open>js\<close> of the world has \<open>GLFW_JOYSTICK_LAST + 1\<close> slots, so its length stands for it.
\<close>

definition GLFW_RELEASE :: "8 word" where "GLFW_RELEASE = 0"
definition GLFW_PRESS :: "8 word" where "GLFW_PRESS = 1"
definition GLFW_CONNECTED :: int where "GLFW_CONNECTED = 0x00040001"
definition GLFW_DISCONNECTED :: int where "GLFW_DISCONNECTED = 0x00040002"
definition GLFW_PLATFORM_ERROR :: int where "GLFW_PLATFORM_ERROR = 0x00010008"

definition JS_EVENT_BUTTON :: "8 word" where "JS_EVENT_BUTTON = 0x01"
definition JS_EVENT_AXIS :: "8 word" where "JS_EVENT_AXIS = 0x02"
definition JS_EVENT_INIT :: "8 word" where "JS_EVENT_INIT = 0x80"

definition EAGAIN :: int where "EAGAIN = 11"
definition ENODEV :: int where "ENODEV = 19"
definition EBADF :: int where "EBADF = 9"

subsection \<open>Data\<close>

text \<open>
  \<open>struct js_event\<close> of \<open>linux/joystick.h\<close>: \<open>__u32 time; __s16 value; __u8 type;
  __u8 number\<close>. The signed field \<open>value\<close> is read with \<open>sint\<close>.
\<close>

record js_event =
  e_time :: "32 word"
  e_value :: "16 word"
  e_type :: "8 word"
  e_number :: "8 word"

text \<open>
  Modelled from the spec: \<open>_GLFWjoystickLinux\<close> is declared in \<open>linux_joystick.h\<close>, which
  is not under src; the fields are the ones the source reads and writes (presence flag,
  file descriptor, device path, display name, axis and button arrays with their counts).
  A pointer field is an option, \<open>None\<close> for \<open>NULL\<close>. A \<open>float\<close> is the rational number it
  denotes.
\<close>

record joystick =
  present :: bool
  fd :: int
  axes :: "rat list option"
  axisCount :: int
  buttons :: "8 word list option"
  buttonCount :: int
  name :: "string option"
  path :: "string option"

text \<open>What \<open>memset(js, 0, sizeof(_GLFWjoystickLinux))\<close> leaves, and what the table holds
  before initialisation.\<close>

definition zero_joystick :: joystick where
  "zero_joystick =
     \<lparr>present = False, fd = 0, axes = None, axisCount = 0,
      buttons = None, buttonCount = 0, name = None, path = None\<rparr>"

text \<open>One outcome of \<open>read\<close> on a joystick descriptor: a whole event, or a negative
  return value with \<open>errno\<close> set.\<close>

datatype read_result = Event js_event | Failed int

text \<open>
  A joystick device as the driver presents it: its answers to the four \<open>ioctl\<close> queries
  and the outcomes its next \<open>read\<close> calls will have. \<open>d_name = None\<close> is a failing
  \<open>JSIOCGNAME\<close>. The two counts arrive in a C \<open>char\<close>.
\<close>

record device =
  d_version :: int
  d_name :: "string option"
  d_axes :: "8 word"
  d_buttons :: "8 word"
  d_queue :: "read_result list"

datatype syscall = Open string int | Close int

record world =
  js :: "joystick list"
  inotify :: int
  watch :: int
  files :: "(string \<times> device) list"
  fds :: "(int \<times> device) list"
  syscalls :: "syscall list"
  changes :: "(nat \<times> int) list"
  errors :: "(int \<times> string) list"
  inotify_events :: "string list"
  ret_inotify_init1 :: int
  ret_inotify_add_watch :: int
  ret_regcomp :: int
  dev_input :: "string list option"

text \<open>
  The fields of \<open>world\<close>: \<open>js\<close>, \<open>inotify\<close> and \<open>watch\<close> are the members of
  \<open>_glfw.linux_js\<close>; \<open>files\<close> maps a path to the device \<open>open\<close> finds there (no entry:
  \<open>open\<close> fails); \<open>fds\<close> is the table of open joystick descriptors; \<open>syscalls\<close> records
  every call of \<open>open\<close>, with the value it returned, and of \<open>close\<close>, in order;
  \<open>changes\<close> and \<open>errors\<close> record the calls of \<open>_glfwInputJoystickChange\<close> and
  \<open>_glfwInputError\<close>, oldest first; \<open>inotify_events\<close> are
  the file names of the events the next \<open>read\<close> on the inotify descriptor delivers; the
  \<open>ret_\<close> fields are what \<open>inotify_init1\<close>, \<open>inotify_add_watch\<close> and \<open>regcomp\<close> return;
  \<open>dev_input\<close> is the listing of \<open>/dev/input\<close>, \<open>None\<close> when \<open>opendir\<close> fails.
\<close>

text \<open>The ways a C execution of this module can leave defined behaviour.\<close>

datatype fault = NullPointer | OutOfBounds | Uninitialised

subsection \<open>Library functions the module calls\<close>

text \<open>
  \<open>_glfw_strcmp\<close> is called as \<open>strcmp\<close> of the C library: the difference of the first
  pair of differing bytes, read as unsigned char. A string of the model is the content
  of the C string before its terminating 0, so a proper prefix compares less; the C
  standard fixes the sign of the result only.
\<close>

fun glfw_strcmp :: "string \<Rightarrow> string \<Rightarrow> int" where
  "glfw_strcmp [] [] = 0"
| "glfw_strcmp [] (y # ys) = - 1"
| "glfw_strcmp (x # xs) [] = 1"
| "glfw_strcmp (x # xs) (y # ys) =
     (if x = y then glfw_strcmp xs ys else int (of_char x) - int (of_char y))"

text \<open>
  \<open>calloc(n, size)\<close> with \<open>n\<close> a C \<open>char\<close> converted to \<open>size_t\<close>: a negative \<open>n\<close> becomes
  a count above \<open>2^63\<close>, which no allocator serves, so the result is \<open>NULL\<close>; otherwise a
  block of \<open>n\<close> zeroed elements. Exhausted memory is not modelled.
\<close>

definition glfw_calloc :: "int \<Rightarrow> 'a \<Rightarrow> 'a list option" where
  "glfw_calloc n z = (if n < 0 then None else Some (replicate (nat n) z))"

text \<open>The lowest descriptor number at or above \<open>n\<close> that is not in use.\<close>

function lowest_free :: "int \<Rightarrow> int list \<Rightarrow> int" where
  "lowest_free n ks = (if n \<in> set ks then lowest_free (n + 1) (removeAll n ks) else n)"
  by pat_completeness auto
termination
  by (relation "measure (\<lambda>(n, ks). length ks)") (auto simp: length_removeAll_less)

declare lowest_free.simps [simp del]

definition sys_open :: "string \<Rightarrow> world \<Rightarrow> int \<times> world" where
  "sys_open p w =
     (case map_of (files w) p of
        None \<Rightarrow> (-1, w\<lparr>syscalls := syscalls w @ [Open p (-1)]\<rparr>)
      | Some d \<Rightarrow>
          (let n = lowest_free 0 (map fst (fds w))
           in (n, w\<lparr>fds := (n, d) # fds w, syscalls := syscalls w @ [Open p n]\<rparr>)))"

definition sys_close :: "int \<Rightarrow> world \<Rightarrow> world" where
  "sys_close n w =
     w\<lparr>fds := filter (\<lambda>kv. fst kv \<noteq> n) (fds w), syscalls := syscalls w @ [Close n]\<rparr>"

text \<open>\<open>read\<close> on a joystick descriptor opened with \<open>O_NONBLOCK\<close>: the next outcome of
  the device's queue; \<open>EAGAIN\<close> when nothing is queued, \<open>EBADF\<close> when the descriptor is
  not open.\<close>

definition sys_read :: "int \<Rightarrow> world \<Rightarrow> read_result \<times> world" where
  "sys_read n w =
     (case map_of (fds w) n of
        None \<Rightarrow> (Failed EBADF, w)
      | Some d \<Rightarrow>
          (case d_queue d of
             [] \<Rightarrow> (Failed EAGAIN, w)
           | r # rs \<Rightarrow>
               (r, w\<lparr>fds := map (\<lambda>kv. if fst kv = n then (n, d\<lparr>d_queue := rs\<rparr>) else kv)
                               (fds w)\<rparr>)))"

definition glfwInputJoystickChange :: "nat \<Rightarrow> int \<Rightarrow> world \<Rightarrow> world" where
  "glfwInputJoystickChange jid event w = w\<lparr>changes := changes w @ [(jid, event)]\<rparr>"

definition glfwInputError :: "int \<Rightarrow> string \<Rightarrow> world \<Rightarrow> world" where
  "glfwInputError code msg w = w\<lparr>errors := errors w @ [(code, msg)]\<rparr>"

subsection \<open>openJoystickDevice\<close>

text \<open>
  The function answers a pair: the \<open>GLFWbool\<close> it returns and the world it leaves. The
  descriptor \<open>open\<close> returned is looked up once for the four \<open>ioctl\<close> queries; were it not
  open, the first query would fail and \<open>version\<close> would be read uninitialised. The counts
  are read into \<open>char axisCount, buttonCount\<close>; \<open>char\<close> is signed on the x86 Linux ABIs,
  so \<open>(int) axisCount\<close> is \<open>sint\<close> of the byte the driver wrote.
\<close>

text \<open>The first loop: is the path already held by a present slot? \<open>strcmp\<close> on a
  \<open>NULL\<close> path is a fault.\<close>

fun path_in_use :: "joystick list \<Rightarrow> string \<Rightarrow> fault + bool" where
  "path_in_use [] p = Inr False"
| "path_in_use (j # rest) p =
     (if \<not> present j then path_in_use rest p
      else case path j of
             None \<Rightarrow> Inl NullPointer
           | Some q \<Rightarrow> if glfw_strcmp q p = 0 then Inr True else path_in_use rest p)"

text \<open>The second loop: the value of \<open>jid\<close> when it ends, the index of the first slot
  that is not present, or the length of the table.\<close>

fun first_free :: "joystick list \<Rightarrow> nat" where
  "first_free [] = 0"
| "first_free (j # rest) = (if \<not> present j then 0 else Suc (first_free rest))"

definition openJoystickDevice :: "string \<Rightarrow> world \<Rightarrow> fault + (bool \<times> world)" where
  "openJoystickDevice p w =
     (case path_in_use (js w) p of
        Inl f \<Rightarrow> Inl f
      | Inr True \<Rightarrow> Inr (False, w)
      | Inr False \<Rightarrow>
          (let jid = first_free (js w) in
           if jid \<ge> length (js w) then Inr (False, w)
           else
             (case sys_open p w of (n, w1) \<Rightarrow>
                if n = -1 then Inr (False, w1)
                else
                  (case map_of (fds w1) n of
                     None \<Rightarrow> Inl Uninitialised
                   | Some d \<Rightarrow>
                       if d_version d < 0x010000 then Inr (False, sys_close n w1)
                       else
                         (let nm = (case d_name d of None \<Rightarrow> ''Unknown'' | Some s \<Rightarrow> s);
                              ac = sint (d_axes d);
                              bc = sint (d_buttons d);
                              j = \<lparr>present = True, fd = n,
                                   axes = glfw_calloc ac 0, axisCount = ac,
                                   buttons = glfw_calloc bc 0, buttonCount = bc,
                                   name = Some nm, path = Some p\<rparr>;
                              w2 = w1\<lparr>js := (js w1)[jid := j]\<rparr>
                           in Inr (True, glfwInputJoystickChange jid GLFW_CONNECTED w2))))))"

subsection \<open>Single-precision division\<close>

text \<open>
  \<open>(float) e.value / 32767.0f\<close>: both operands are exact in binary32, and the IEEE 754
  quotient, evaluated in single precision, is the exact quotient rounded to the nearest
  number with a 24-bit significand, ties to the even significand. \<open>ilog2 x\<close> is the
  exponent of a positive \<open>x\<close>; below \<open>2^-126\<close> the spacing stays that of the subnormal
  numbers. Quotients of magnitude
  \<open>2^128\<close> and above, which binary32 turns into an infinity, are outside this model.
\<close>

definition round_even :: "rat \<Rightarrow> int" where
  "round_even q =
     (let n = \<lfloor>q\<rfloor>; r = q - of_int n
      in if r < 1 / 2 then n else if 1 / 2 < r then n + 1 else if even n then n else n + 1)"

definition ilog2 :: "rat \<Rightarrow> int" where
  "ilog2 x =
     (if 1 \<le> x then int (floorlog 2 (nat \<lfloor>x\<rfloor>)) - 1
      else - int (floorlog 2 (nat (\<lceil>1 / x\<rceil> - 1))))"

definition f32_round :: "rat \<Rightarrow> rat" where
  "f32_round x =
     (if x = 0 then 0
      else (let u = 2 powi (max (ilog2 \<bar>x\<bar>) (- 126) - 23)
            in sgn x * (of_int (round_even (\<bar>x\<bar> / u)) * u)))"

definition f32_div :: "rat \<Rightarrow> rat \<Rightarrow> rat" where
  "f32_div a b = f32_round (a / b)"

subsection \<open>pollJoystickEvents\<close>

text \<open>An assignment \<open>arr[i] = v\<close> through a pointer that may be \<open>NULL\<close>, into a block
  of known size.\<close>

definition store :: "'a list option \<Rightarrow> nat \<Rightarrow> 'a \<Rightarrow> fault + 'a list option" where
  "store arr i v =
     (case arr of
        None \<Rightarrow> Inl NullPointer
      | Some xs \<Rightarrow> if i < length xs then Inr (Some (xs[i := v])) else Inl OutOfBounds)"

definition axis_value :: "js_event \<Rightarrow> rat" where
  "axis_value ev = f32_div (of_int (sint (e_value ev))) 32767"

definition button_value :: "js_event \<Rightarrow> 8 word" where
  "button_value ev = (if e_value ev \<noteq> 0 then GLFW_PRESS else GLFW_RELEASE)"

text \<open>The number of outcomes queued on a descriptor.\<close>

definition pending :: "int \<Rightarrow> world \<Rightarrow> nat" where
  "pending n w = (case map_of (fds w) n of None \<Rightarrow> 0 | Some d \<Rightarrow> length (d_queue d))"

lemma map_of_map_upd:
  "map_of xs n = Some d \<Longrightarrow>
   map_of (map (\<lambda>kv. if fst kv = n then (n, d') else kv) xs) n = Some d'"
  by (induction xs) (auto split: if_splits)

lemma sys_read_Event_pending:
  "sys_read n w = (Event ev, w1) \<Longrightarrow> pending n w1 < pending n w \<and> js w1 = js w"
  by (auto simp: sys_read_def pending_def map_of_map_upd split: option.splits list.splits)

lemma fd_nth_update: "fd j = fd (xs ! i) \<Longrightarrow> fd ((xs[i := j]) ! i) = fd (xs ! i)"
  by (cases "i < length xs") (simp_all add: list_update_beyond)

lemma pending_js_update [simp]: "pending n (w\<lparr>js := x\<rparr>) = pending n w"
  by (simp add: pending_def)

text \<open>
  The body of the loop \<open>for (;;)\<close> of \<open>pollJoystickEvents\<close> after a \<open>read\<close> that
  delivered an event, as a function of the slot \<open>*js\<close>: the initial-state bit is cleared
  from the type, then an axis event stores into \<open>js->axes[e.number]\<close> and a button event
  into \<open>js->buttons[e.number]\<close>; an event of another type changes nothing.
\<close>

definition handle_event :: "js_event \<Rightarrow> joystick \<Rightarrow> fault + joystick" where
  "handle_event ev j =
     (let t = e_type ev AND NOT JS_EVENT_INIT in
      if t = JS_EVENT_AXIS then
        (case store (axes j) (unat (e_number ev)) (axis_value ev) of
           Inl f \<Rightarrow> Inl f
         | Inr a \<Rightarrow> Inr (j\<lparr>axes := a\<rparr>))
      else if t = JS_EVENT_BUTTON then
        (case store (buttons j) (unat (e_number ev)) (button_value ev) of
           Inl f \<Rightarrow> Inl f
         | Inr b \<Rightarrow> Inr (j\<lparr>buttons := b\<rparr>))
      else Inr j)"

lemma handle_event_fd: "handle_event ev j = Inr j' \<Longrightarrow> fd j' = fd j"
  by (auto simp: handle_event_def Let_def split: if_splits sum.splits)

text \<open>
  The loop itself, for the slot \<open>js + jid\<close>: one \<open>read\<close> per round; a failed \<open>read\<close> ends
  it, after the reset of the slot when \<open>errno\<close> is \<open>ENODEV\<close>.
\<close>

function read_events :: "nat \<Rightarrow> world \<Rightarrow> fault + world" where
  "read_events jid w =
     (case sys_read (fd (js w ! jid)) w of
        (Failed e, w1) \<Rightarrow>
          if e = ENODEV
          then Inr (glfwInputJoystickChange jid GLFW_DISCONNECTED
                      (w1\<lparr>js := (js w1)[jid := zero_joystick]\<rparr>))
          else Inr w1
      | (Event ev, w1) \<Rightarrow>
          (case handle_event ev (js w1 ! jid) of
             Inl f \<Rightarrow> Inl f
           | Inr j \<Rightarrow> read_events jid (w1\<lparr>js := (js w1)[jid := j]\<rparr>)))"
  by pat_completeness auto
termination
proof (relation "measure (\<lambda>(jid, w). pending (fd (js w ! jid)) w)", goal_cases)
  case 1
  then show ?case by simp
next
  case (2 jid w x y ev j)
  then show ?case
    using sys_read_Event_pending[of "fd (js w ! jid)" w ev y] handle_event_fd[of ev "js y ! jid" j]
    by (simp add: fd_nth_update)
qed

declare read_events.simps [simp del]

subsection \<open>Hot-plug events and the poll of one slot\<close>

text \<open>
  \<open>regexec\<close> with the pattern \<open>^js[0-9]\\+$\<close> compiled by \<open>regcomp\<close> with no flags: the
  whole name is \<open>js\<close> followed by one or more decimal digits.
\<close>

definition is_digit :: "char \<Rightarrow> bool" where
  "is_digit c = (c \<in> set ''0123456789'')"

fun regexec_js :: "string \<Rightarrow> bool" where
  "regexec_js (a # b # ds) = (a = CHR ''j'' \<and> b = CHR ''s'' \<and> ds \<noteq> [] \<and> list_all is_digit ds)"
| "regexec_js _ = False"

text \<open>\<open>snprintf(path, sizeof(path), ...)\<close> into \<open>char path[20]\<close>: at most 19 characters of
  \<open>/dev/input/\<close> followed by the file name.\<close>

definition device_path :: "string \<Rightarrow> string" where
  "device_path n = take 19 (''/dev/input'' @ ''/'' @ n)"

text \<open>The loop of \<open>_glfwPollJoystickEvents\<close> over the events one \<open>read\<close> on the inotify
  descriptor delivered; the result of \<open>openJoystickDevice\<close> is dropped.\<close>

fun hotplug_events :: "string list \<Rightarrow> world \<Rightarrow> fault + world" where
  "hotplug_events [] w = Inr w"
| "hotplug_events (n # ns) w =
     (if regexec_js n then
        (case openJoystickDevice (device_path n) w of
           Inl f \<Rightarrow> Inl f
         | Inr (r, w1) \<Rightarrow> hotplug_events ns w1)
      else hotplug_events ns w)"

definition glfwPollJoystickEvents :: "world \<Rightarrow> fault + world" where
  "glfwPollJoystickEvents w = hotplug_events (inotify_events w) (w\<lparr>inotify_events := []\<rparr>)"

text \<open>\<open>pollJoystickEvents(js)\<close> with \<open>js = _glfw.linux_js.js + jid\<close>, as every caller passes
  it; a \<open>jid\<close> past the table is a fault.\<close>

definition pollJoystickEvents :: "nat \<Rightarrow> world \<Rightarrow> fault + (bool \<times> world)" where
  "pollJoystickEvents jid w =
     (if length (js w) \<le> jid then Inl OutOfBounds
      else
        (case glfwPollJoystickEvents w of
           Inl f \<Rightarrow> Inl f
         | Inr w1 \<Rightarrow>
             if \<not> present (js w1 ! jid) then Inr (False, w1)
             else
               (case read_events jid w1 of
                  Inl f \<Rightarrow> Inl f
                | Inr w2 \<Rightarrow> Inr (present (js w2 ! jid), w2))))"

subsection \<open>Initialisation\<close>

text \<open>\<open>compareJoysticks\<close>: \<open>strcmp\<close> of the two paths.\<close>

definition compareJoysticks :: "joystick \<Rightarrow> joystick \<Rightarrow> fault + int" where
  "compareJoysticks fj sj =
     (case path fj of
        None \<Rightarrow> Inl NullPointer
      | Some a \<Rightarrow> (case path sj of None \<Rightarrow> Inl NullPointer | Some b \<Rightarrow> Inr (glfw_strcmp a b)))"

text \<open>
  Modelled from the spec: \<open>_glfw_qsort\<close> is not under src; the spec has initialisation
  "enumerate existing devices, sort by path", and the call passes it the table, the
  number of devices opened and the comparison function as \<open>qsort\<close> of the C library takes
  them. It is
  modelled as a sort by insertion that calls the comparison function on pairs of
  elements and puts an element before the first one it does not compare greater than.
\<close>

fun qsort_insert :: "('a \<Rightarrow> 'a \<Rightarrow> fault + int) \<Rightarrow> 'a \<Rightarrow> 'a list \<Rightarrow> fault + 'a list" where
  "qsort_insert cmp x [] = Inr [x]"
| "qsort_insert cmp x (y # ys) =
     (case cmp x y of
        Inl f \<Rightarrow> Inl f
      | Inr c \<Rightarrow>
          if c \<le> 0 then Inr (x # y # ys)
          else (case qsort_insert cmp x ys of Inl f \<Rightarrow> Inl f | Inr zs \<Rightarrow> Inr (y # zs)))"

fun glfw_qsort :: "('a \<Rightarrow> 'a \<Rightarrow> fault + int) \<Rightarrow> 'a list \<Rightarrow> fault + 'a list" where
  "glfw_qsort cmp [] = Inr []"
| "glfw_qsort cmp (x # xs) =
     (case glfw_qsort cmp xs of Inl f \<Rightarrow> Inl f | Inr ys \<Rightarrow> qsort_insert cmp x ys)"

text \<open>The loop over \<open>readdir\<close>, with the running \<open>count\<close> (here \<open>cnt\<close>).\<close>

fun readdir_loop :: "string list \<Rightarrow> nat \<Rightarrow> world \<Rightarrow> fault + (nat \<times> world)" where
  "readdir_loop [] cnt w = Inr (cnt, w)"
| "readdir_loop (n # ns) cnt w =
     (if \<not> regexec_js n then readdir_loop ns cnt w
      else
        (case openJoystickDevice (device_path n) w of
           Inl f \<Rightarrow> Inl f
         | Inr (r, w1) \<Rightarrow> readdir_loop ns (if r then cnt + 1 else cnt) w1))"

text \<open>\<open>inotify_add_watch\<close> on the directory and the error reported when it fails; the
  function goes on without notifications of new devices.\<close>

definition add_watch :: "world \<Rightarrow> world" where
  "add_watch w =
     (let w2 = w\<lparr>watch := ret_inotify_add_watch w\<rparr> in
      if watch w2 = -1
      then glfwInputError GLFW_PLATFORM_ERROR
             ''Linux: Failed to watch for joystick connections in %s: %s'' w2
      else w2)"

definition glfwInitJoysticksLinux :: "world \<Rightarrow> fault + (bool \<times> world)" where
  "glfwInitJoysticksLinux w =
     (let w1 = w\<lparr>inotify := ret_inotify_init1 w\<rparr> in
      if inotify w1 = -1
      then Inr (False, glfwInputError GLFW_PLATFORM_ERROR
                         ''Linux: Failed to initialize inotify: %s'' w1)
      else
        (let w3 = add_watch w1
         in if ret_regcomp w3 \<noteq> 0
            then Inr (False, glfwInputError GLFW_PLATFORM_ERROR
                               ''Linux: Failed to compile regex'' w3)
            else
              (case (case dev_input w3 of
                       Some entries \<Rightarrow> readdir_loop entries 0 w3
                     | None \<Rightarrow>
                         Inr (0, glfwInputError GLFW_PLATFORM_ERROR
                                   ''Linux: Failed to open joystick device directory %s: %s'' w3))
               of
                 Inl f \<Rightarrow> Inl f
               | Inr (cnt, w4) \<Rightarrow>
                   (case glfw_qsort compareJoysticks (take cnt (js w4)) of
                      Inl f \<Rightarrow> Inl f
                    | Inr sorted_js \<Rightarrow>
                        Inr (True, w4\<lparr>js := sorted_js @ drop cnt (js w4)\<rparr>)))))"

section \<open>Reference definitions and invariants\<close>

subsection \<open>Tables\<close>

text \<open>A table whose present slots all carry a path: the first loop of
  \<open>openJoystickDevice\<close> and the comparison function never meet a \<open>NULL\<close> path in it.\<close>

definition table_ok :: "joystick list \<Rightarrow> bool" where
  "table_ok xs = list_all (\<lambda>j. present j \<longrightarrow> path j \<noteq> None) xs"

text \<open>Pairwise distinct paths among the present slots.\<close>

definition distinct_paths :: "joystick list \<Rightarrow> bool" where
  "distinct_paths xs = distinct (map path (filter present xs))"

text \<open>The path of a slot as a string (empty for \<open>NULL\<close>), a table with no present
  slot, and a table whose present slots are exactly its first \<open>c\<close>.\<close>

definition slot_path :: "joystick \<Rightarrow> string" where
  "slot_path j = (case path j of Some p \<Rightarrow> p | None \<Rightarrow> [])"

definition all_free :: "joystick list \<Rightarrow> bool" where
  "all_free xs = list_all (\<lambda>j. \<not> present j) xs"

definition packed :: "nat \<Rightarrow> joystick list \<Rightarrow> bool" where
  "packed c xs =
     (c \<le> length xs \<and> list_all present (take c xs) \<and> list_all (\<lambda>j. \<not> present j) (drop c xs))"

subsection \<open>What one poll reads\<close>

text \<open>
  The \<open>errno\<close> of the first failing \<open>read\<close> on a queue of outcomes, and what stays queued
  after it; an exhausted queue fails with \<open>EAGAIN\<close>. \<open>poll_errno n w\<close> is the \<open>errno\<close> that
  ends a loop of reads on the descriptor \<open>n\<close> in the world \<open>w\<close>.
\<close>

fun first_failure :: "read_result list \<Rightarrow> int" where
  "first_failure [] = EAGAIN"
| "first_failure (Failed e # q) = e"
| "first_failure (Event ev # q) = first_failure q"

fun after_failure :: "read_result list \<Rightarrow> read_result list" where
  "after_failure [] = []"
| "after_failure (Failed e # q) = q"
| "after_failure (Event ev # q) = after_failure q"

definition poll_errno :: "int \<Rightarrow> world \<Rightarrow> int" where
  "poll_errno n w =
     (case map_of (fds w) n of None \<Rightarrow> EBADF | Some d \<Rightarrow> first_failure (d_queue d))"

text \<open>The slot after the events queued before the first failing \<open>read\<close> have been handled
  in their order.\<close>

fun apply_events :: "joystick \<Rightarrow> read_result list \<Rightarrow> fault + joystick" where
  "apply_events j [] = Inr j"
| "apply_events j (Failed e # q) = Inr j"
| "apply_events j (Event ev # q) =
     (case handle_event ev j of Inl f \<Rightarrow> Inl f | Inr j' \<Rightarrow> apply_events j' q)"

text \<open>An event fits a slot when the array it is stored into exists and is longer than
  the number of the event: what the driver promises for the counts it reported.\<close>

definition fits :: "joystick \<Rightarrow> js_event \<Rightarrow> bool" where
  "fits j ev =
     (let t = e_type ev AND NOT JS_EVENT_INIT in
      if t = JS_EVENT_AXIS then
        (case axes j of None \<Rightarrow> False | Some as \<Rightarrow> unat (e_number ev) < length as)
      else if t = JS_EVENT_BUTTON then
        (case buttons j of None \<Rightarrow> False | Some bs \<Rightarrow> unat (e_number ev) < length bs)
      else True)"

fun queue_fits :: "joystick \<Rightarrow> read_result list \<Rightarrow> bool" where
  "queue_fits j [] = True"
| "queue_fits j (Failed e # q) = True"
| "queue_fits j (Event ev # q) = (fits j ev \<and> queue_fits j q)"

subsection \<open>Invariants of the polled state\<close>

text \<open>Every button of every present slot is \<open>GLFW_PRESS\<close> or \<open>GLFW_RELEASE\<close>.\<close>

definition slot_buttons_ok :: "joystick \<Rightarrow> bool" where
  "slot_buttons_ok j =
     (present j \<longrightarrow>
        (case buttons j of
           None \<Rightarrow> True
         | Some bs \<Rightarrow> list_all (\<lambda>b. b = GLFW_PRESS \<or> b = GLFW_RELEASE) bs))"

definition buttons_ok :: "joystick list \<Rightarrow> bool" where
  "buttons_ok xs = list_all slot_buttons_ok xs"

text \<open>Every axis of every present slot lies between the lowest value the division can
  give, \<open>-32769/32768\<close>, and 1.\<close>

definition slot_axes_ok :: "joystick \<Rightarrow> bool" where
  "slot_axes_ok j =
     (present j \<longrightarrow>
        (case axes j of
           None \<Rightarrow> True
         | Some as \<Rightarrow> list_all (\<lambda>a. - (32769 / 32768) \<le> a \<and> a \<le> 1) as))"

definition axes_ok :: "joystick list \<Rightarrow> bool" where
  "axes_ok xs = list_all slot_axes_ok xs"

subsection \<open>Discovery, as the specification words it\<close>

text \<open>
  Calling \<open>openJoystickDevice\<close> on each path of a list in turn, counting the calls that
  return true: the reference the two loops of the source are compared with.
\<close>

fun open_each :: "string list \<Rightarrow> nat \<Rightarrow> world \<Rightarrow> fault + (nat \<times> world)" where
  "open_each [] c w = Inr (c, w)"
| "open_each (p # ps) c w =
     (case openJoystickDevice p w of
        Inl f \<Rightarrow> Inl f
      | Inr (r, w1) \<Rightarrow> open_each ps (if r then c + 1 else c) w1)"

text \<open>The names discovery acts on: those of a listing that match the pattern.\<close>

definition joystick_names :: "string list \<Rightarrow> string list" where
  "joystick_names ns = filter regexec_js ns"

text \<open>The result of a computation without the count.\<close>

fun drop_count :: "fault + (nat \<times> world) \<Rightarrow> fault + world" where
  "drop_count (Inl f) = Inl f"
| "drop_count (Inr (c, w)) = Inr w"

subsection \<open>Example worlds\<close>

text \<open>
  Two devices and a directory listing to run the model on: \<open>pad\<close> speaks version 2.1 of
  the driver interface, \<open>old_pad\<close> version 0.9. The table of \<open>example_world\<close> has two
  slots, both free.
\<close>

definition pad :: device where
  "pad = \<lparr>d_version = 0x020100, d_name = Some ''Zeta Pad'', d_axes = 2, d_buttons = 3,
          d_queue = []\<rparr>"

definition old_pad :: device where
  "old_pad = \<lparr>d_version = 0x000900, d_name = None, d_axes = 2, d_buttons = 2, d_queue = []\<rparr>"

definition example_world :: world where
  "example_world =
     \<lparr>js = [zero_joystick, zero_joystick], inotify = 0, watch = 0,
      files = [(''/dev/input/js0'', pad), (''/dev/input/js9'', old_pad)],
      fds = [], syscalls = [], changes = [], errors = [], inotify_events = [],
      ret_inotify_init1 = 3, ret_inotify_add_watch = 1, ret_regcomp = 0,
      dev_input = Some [''.'', ''..'', ''js0'', ''mice'']\<rparr>"

definition pad_slot :: joystick where
  "pad_slot =
     \<lparr>present = True, fd = 0, axes = Some [0, 0], axisCount = 2,
      buttons = Some [0, 0, 0], buttonCount = 3,
      name = Some ''Zeta Pad'', path = Some ''/dev/input/js0''\<rparr>"

text \<open>The world after \<open>openJoystickDevice\<close> has opened \<open>/dev/input/js0\<close> in \<open>example_world\<close>.\<close>

definition example_opened :: world where
  "example_opened =
     example_world\<lparr>js := [pad_slot, zero_joystick], fds := [(0, pad)],
                   syscalls := [Open ''/dev/input/js0'' 0],
                   changes := [(0, GLFW_CONNECTED)]\<rparr>"

text \<open>A table with both slots taken, and the world after \<open>openJoystickDevice\<close> met the
  old driver at \<open>/dev/input/js9\<close>.\<close>

definition example_full :: world where
  "example_full =
     example_opened\<lparr>js := [pad_slot, pad_slot\<lparr>fd := 1, path := Some ''/dev/input/js1''\<rparr>]\<rparr>"

definition example_old :: world where
  "example_old = example_world\<lparr>syscalls := [Open ''/dev/input/js9'' 0, Close 0]\<rparr>"

text \<open>
  Events and worlds to poll: in \<open>example_unplug\<close> the pad of \<open>example_opened\<close> has an axis
  event of the initial state, a button event and then a \<open>read\<close> failing with \<open>ENODEV\<close>
  queued; in \<open>example_moved\<close> it has an axis event with the lowest value and a button
  event queued, after which \<open>read\<close> fails with \<open>EAGAIN\<close>.
\<close>

definition axis_event :: "8 word \<Rightarrow> 16 word \<Rightarrow> js_event" where
  "axis_event k v = \<lparr>e_time = 0, e_value = v, e_type = JS_EVENT_AXIS, e_number = k\<rparr>"

definition button_event :: "8 word \<Rightarrow> 16 word \<Rightarrow> js_event" where
  "button_event k v = \<lparr>e_time = 0, e_value = v, e_type = JS_EVENT_BUTTON, e_number = k\<rparr>"

definition example_unplug :: world where
  "example_unplug =
     example_opened\<lparr>fds := [(0, pad\<lparr>d_queue :=
        [Event ((axis_event 0 32767)\<lparr>e_type := JS_EVENT_AXIS OR JS_EVENT_INIT\<rparr>),
         Event (button_event 2 1), Failed ENODEV]\<rparr>)]\<rparr>"

definition example_unplugged :: world where
  "example_unplugged =
     example_opened\<lparr>js := [zero_joystick, zero_joystick], fds := [(0, pad)],
                    changes := [(0, GLFW_CONNECTED), (0, GLFW_DISCONNECTED)]\<rparr>"

definition example_move :: world where
  "example_move =
     example_opened\<lparr>fds := [(0, pad\<lparr>d_queue :=
        [Event (axis_event 1 (- 32768)), Event (button_event 2 1)]\<rparr>)]\<rparr>"

definition example_moved :: world where
  "example_moved =
     example_opened\<lparr>js := [pad_slot\<lparr>axes := Some [0, - (32769 / 32768)],
                                    buttons := Some [0, 0, 1]\<rparr>, zero_joystick]\<rparr>"

text \<open>A second device, and a world before initialisation: \<open>readdir\<close> lists \<open>js1\<close> before
  \<open>js0\<close>, and adding the watch fails.\<close>

definition pad2 :: device where
  "pad2 = \<lparr>d_version = 0x020100, d_name = Some ''Alpha Pad'', d_axes = 1, d_buttons = 1,
           d_queue = []\<rparr>"

definition example_boot :: world where
  "example_boot =
     \<lparr>js = [zero_joystick, zero_joystick, zero_joystick], inotify = 0, watch = 0,
      files = [(''/dev/input/js0'', pad), (''/dev/input/js1'', pad2)],
      fds = [], syscalls = [], changes = [], errors = [], inotify_events = [],
      ret_inotify_init1 = 3, ret_inotify_add_watch = - 1, ret_regcomp = 0,
      dev_input = Some [''.'', ''..'', ''js1'', ''event0'', ''js0'', ''jsx'']\<rparr>"

definition pad2_slot :: joystick where
  "pad2_slot =
     \<lparr>present = True, fd = 0, axes = Some [0], axisCount = 1,
      buttons = Some [0], buttonCount = 1,
      name = Some ''Alpha Pad'', path = Some ''/dev/input/js1''\<rparr>"

definition example_booted :: world where
  "example_booted =
     example_boot\<lparr>js := [pad_slot\<lparr>fd := 1\<rparr>, pad2_slot, zero_joystick],
                  inotify := 3, watch := - 1,
                  fds := [(1, pad), (0, pad2)],
                  syscalls := [Open ''/dev/input/js1'' 0, Open ''/dev/input/js0'' 1],
                  changes := [(0, GLFW_CONNECTED), (1, GLFW_CONNECTED)],
                  errors := [(GLFW_PLATFORM_ERROR,
                              ''Linux: Failed to watch for joystick connections in %s: %s'')]\<rparr>"

text \<open>The world of \<open>example_boot\<close> with a directory that cannot be opened, and what
  initialisation leaves of it.\<close>

definition example_nodir :: world where
  "example_nodir = example_boot\<lparr>dev_input := None\<rparr>"

definition example_nodir_booted :: world where
  "example_nodir_booted =
     example_nodir\<lparr>inotify := 3, watch := - 1,
        errors := [(GLFW_PLATFORM_ERROR,
                    ''Linux: Failed to watch for joystick connections in %s: %s''),
                   (GLFW_PLATFORM_ERROR,
                    ''Linux: Failed to open joystick device directory %s: %s'')]\<rparr>"

text \<open>A world whose hot-plug queue holds a name that matches the pattern, one that does
  not, and one that is longer than the path buffer takes.\<close>

definition example_hotplug :: world where
  "example_hotplug =
     example_world\<lparr>inotify_events := [''js0'', ''event3'', ''js123456789'']\<rparr>"

text \<open>\<open>example_hotplug\<close> after \<open>_glfwPollJoystickEvents\<close>: the pad is connected, and the
  \<open>open\<close> on the name cut to 8 characters found no file.\<close>

definition example_hotplugged :: world where
  "example_hotplugged =
     example_opened\<lparr>syscalls := [Open ''/dev/input/js0'' 0, Open ''/dev/input/js123456'' (- 1)]\<rparr>"




text \<open>The world of \<open>example_opened\<close>, slot 0 taken and slot 1 free, with the second pad
  at \<open>/dev/input/js1\<close>, and that world after \<open>openJoystickDevice\<close> on that path.\<close>

definition example_second :: world where
  "example_second =
     example_opened\<lparr>files := [(''/dev/input/js0'', pad), (''/dev/input/js1'', pad2)]\<rparr>"

definition example_second_opened :: world where
  "example_second_opened =
     example_second\<lparr>js := [pad_slot, pad2_slot\<lparr>fd := 1\<rparr>],
                     fds := [(1, pad2), (0, pad)],
                     syscalls := [Open ''/dev/input/js0'' 0, Open ''/dev/input/js1'' 1],
                     changes := [(0, GLFW_CONNECTED), (1, GLFW_CONNECTED)]\<rparr>"





section \<open>Properties\<close>

subsection \<open>Descriptors and strings\<close>

lemma lowest_free_ge: "n \<le> lowest_free n ks"
proof (induction n ks rule: lowest_free.induct)
  case (1 n ks)
  show ?case
  proof (cases "n \<in> set ks")
    case True
    with 1 have "n + 1 \<le> lowest_free (n + 1) (removeAll n ks)" by simp
    moreover from True have "lowest_free n ks = lowest_free (n + 1) (removeAll n ks)"
      by (subst lowest_free.simps) simp
    ultimately show ?thesis by simp
  next
    case False
    then have "lowest_free n ks = n" by (subst lowest_free.simps) simp
    then show ?thesis by simp
  qed
qed

lemma lowest_free_fresh: "lowest_free n ks \<notin> set ks"
proof (induction n ks rule: lowest_free.induct)
  case (1 n ks)
  show ?case
  proof (cases "n \<in> set ks")
    case True
    with 1 have ih: "lowest_free (n + 1) (removeAll n ks) \<notin> set (removeAll n ks)" by simp
    have "n + 1 \<le> lowest_free (n + 1) (removeAll n ks)" by (rule lowest_free_ge)
    then have ne: "lowest_free (n + 1) (removeAll n ks) \<noteq> n" by simp
    from True have "lowest_free n ks = lowest_free (n + 1) (removeAll n ks)"
      by (subst lowest_free.simps) simp
    with ih ne show ?thesis by simp
  next
    case False
    then have "lowest_free n ks = n" by (subst lowest_free.simps) simp
    with False show ?thesis by simp
  qed
qed

lemma filter_fresh_key: "n \<notin> set (map fst xs) \<Longrightarrow> filter (\<lambda>kv. fst kv \<noteq> n) xs = xs"
  by (induction xs) auto

lemma glfw_strcmp_eq: "glfw_strcmp a b = 0 \<longleftrightarrow> a = b"
  by (induction a b rule: glfw_strcmp.induct) auto

lemma char_diff_le: "int (of_char x) - int (of_char y) \<le> 0 \<longleftrightarrow> x \<le> y"
  by (simp add: less_eq_char_def)

lemma char_neq_le: "x \<noteq> y \<Longrightarrow> x \<le> y \<longleftrightarrow> x < (y::char)"
  by (simp add: order_less_le)


lemma glfw_strcmp_le: "glfw_strcmp a b \<le> 0 \<longleftrightarrow> a \<le> b"
proof (induction a b rule: glfw_strcmp.induct)
  case (4 x xs y ys)
  show ?case
  proof (cases "x = y")
    case True
    with 4 show ?thesis by simp
  next
    case False
    then have "glfw_strcmp (x # xs) (y # ys) \<le> 0 \<longleftrightarrow> x < y"
      using char_diff_le[of x y] char_neq_le[of x y] by simp
    with False show ?thesis by simp
  qed
qed simp_all


subsection \<open>The two loops of openJoystickDevice\<close>

lemma path_in_use_True:
  "path_in_use xs p = Inr True \<Longrightarrow> \<exists>j \<in> set xs. present j \<and> path j = Some p"
proof (induction xs)
  case (Cons j rest)
  then show ?case
    by (cases "present j"; cases "path j") (auto simp: glfw_strcmp_eq split: if_splits)
qed simp

lemma path_in_use_False:
  "path_in_use xs p = Inr False \<Longrightarrow>
   \<forall>j \<in> set xs. present j \<longrightarrow> path j \<noteq> Some p \<and> path j \<noteq> None"
proof (induction xs)
  case (Cons j rest)
  then show ?case
    by (cases "present j"; cases "path j") (auto simp: glfw_strcmp_eq split: if_splits)
qed simp

lemma path_in_use_held:
  assumes "path_in_use xs p = Inr b" and "j \<in> set xs" and "present j" and "path j = Some p"
  shows "b"
proof (cases b)
  case False
  with assms(1) have "\<forall>j \<in> set xs. present j \<longrightarrow> path j \<noteq> Some p \<and> path j \<noteq> None"
    using path_in_use_False[of xs p] by simp
  with assms(2-4) show ?thesis by auto
qed simp

lemma path_in_use_total: "table_ok xs \<Longrightarrow> \<exists>b. path_in_use xs p = Inr b"
proof (induction xs)
  case (Cons j rest)
  then show ?case by (cases "present j"; cases "path j") (auto simp: table_ok_def)
qed auto

lemma first_free_le: "first_free xs \<le> length xs"
  by (induction xs) auto

lemma first_free_free: "first_free xs < length xs \<Longrightarrow> \<not> present (xs ! first_free xs)"
  by (induction xs) (auto split: if_splits)

lemma first_free_before: "i < first_free xs \<Longrightarrow> present (xs ! i)"
proof (induction xs arbitrary: i)
  case (Cons j rest)
  then show ?case by (cases i) (auto split: if_splits)
qed simp

lemma first_free_full: "\<forall>j \<in> set xs. present j \<Longrightarrow> first_free xs = length xs"
  by (induction xs) auto

lemma first_free_fill:
  "first_free xs < length xs \<Longrightarrow> present j \<Longrightarrow> first_free xs < first_free (xs[first_free xs := j])"
  by (induction xs) (auto split: if_splits)


subsection \<open>The three ways openJoystickDevice returns\<close>

lemma sys_close_after_open:
  "n = lowest_free 0 (map fst (fds w)) \<Longrightarrow>
   sys_close n (w\<lparr>fds := (n, d) # fds w, syscalls := syscalls w @ [Open p n]\<rparr>) =
   w\<lparr>syscalls := syscalls w @ [Open p n, Close n]\<rparr>"
  using lowest_free_fresh[of 0 "map fst (fds w)"]
  by (simp add: sys_close_def filter_fresh_key)

lemma lowest_free_not_minus1: "lowest_free 0 ks \<noteq> - 1"
  using lowest_free_ge[of 0 ks] by simp

lemma openJoystickDevice_cases:
  assumes "openJoystickDevice p w = Inr (r, w')"
  obtains
    (refused) "\<not> r" "w' = w"
      "path_in_use (js w) p = Inr True \<or> length (js w) \<le> first_free (js w)"
  | (failed) "\<not> r" "path_in_use (js w) p = Inr False" "first_free (js w) < length (js w)"
      "map_of (files w) p = None"
      "w' = w\<lparr>syscalls := syscalls w @ [Open p (- 1)]\<rparr>"
  | (old) d n where "\<not> r" "path_in_use (js w) p = Inr False" "first_free (js w) < length (js w)"
      "map_of (files w) p = Some d" "d_version d < 0x010000"
      "n = lowest_free 0 (map fst (fds w))"
      "w' = w\<lparr>syscalls := syscalls w @ [Open p n, Close n]\<rparr>"
  | (opened) d n where "r" "path_in_use (js w) p = Inr False" "first_free (js w) < length (js w)"
      "map_of (files w) p = Some d" "\<not> d_version d < 0x010000"
      "n = lowest_free 0 (map fst (fds w))"
      "w' = w\<lparr>js := (js w)[first_free (js w) :=
                 \<lparr>present = True, fd = n,
                  axes = glfw_calloc (sint (d_axes d)) 0, axisCount = sint (d_axes d),
                  buttons = glfw_calloc (sint (d_buttons d)) 0, buttonCount = sint (d_buttons d),
                  name = Some (case d_name d of None \<Rightarrow> ''Unknown'' | Some s \<Rightarrow> s),
                  path = Some p\<rparr>],
               fds := (n, d) # fds w,
               syscalls := syscalls w @ [Open p n],
               changes := changes w @ [(first_free (js w), GLFW_CONNECTED)]\<rparr>"
proof -
  from assms obtain b where b: "path_in_use (js w) p = Inr b"
    by (cases "path_in_use (js w) p") (auto simp: openJoystickDevice_def)
  show thesis
  proof (cases b)
    case True
    with assms b have "\<not> r \<and> w' = w" by (auto simp: openJoystickDevice_def)
    then show thesis using refused b True by simp
  next
    case nb: False
    show thesis
    proof (cases "first_free (js w) < length (js w)")
      case False
      with assms b nb have "\<not> r \<and> w' = w" by (auto simp: openJoystickDevice_def Let_def)
      then show thesis using refused False by simp
    next
      case ff: True
      show thesis
      proof (cases "map_of (files w) p")
        case None
        with assms b nb ff have "\<not> r \<and> w' = w\<lparr>syscalls := syscalls w @ [Open p (- 1)]\<rparr>"
          by (auto simp: openJoystickDevice_def Let_def sys_open_def)
        then show thesis using failed b nb ff None by simp
      next
        case (Some d)
        define n where "n = lowest_free 0 (map fst (fds w))"
        have so: "sys_open p w = (n, w\<lparr>fds := (n, d) # fds w, syscalls := syscalls w @ [Open p n]\<rparr>)"
          using Some by (simp add: sys_open_def n_def Let_def)
        have n1: "n \<noteq> - 1" unfolding n_def by (rule lowest_free_not_minus1)
        show thesis
        proof (cases "d_version d < 0x010000")
          case True
          with assms b nb ff so n1 have "\<not> r \<and> w' = w\<lparr>syscalls := syscalls w @ [Open p n, Close n]\<rparr>"
            using sys_close_after_open[where n=n and w=w and d=d and p=p]
            by (auto simp: openJoystickDevice_def Let_def n_def)
          then show thesis using old[where d=d and n=n] b nb ff Some True n_def by simp
        next
          case False
          with assms b nb ff so n1 have "r \<and> w' = w\<lparr>js := (js w)[first_free (js w) :=
                 \<lparr>present = True, fd = n,
                  axes = glfw_calloc (sint (d_axes d)) 0, axisCount = sint (d_axes d),
                  buttons = glfw_calloc (sint (d_buttons d)) 0, buttonCount = sint (d_buttons d),
                  name = Some (case d_name d of None \<Rightarrow> ''Unknown'' | Some s \<Rightarrow> s),
                  path = Some p\<rparr>],
               fds := (n, d) # fds w,
               syscalls := syscalls w @ [Open p n],
               changes := changes w @ [(first_free (js w), GLFW_CONNECTED)]\<rparr>"
            by (auto simp: openJoystickDevice_def Let_def glfwInputJoystickChange_def)
          then show thesis using opened[where d=d and n=n] b nb ff Some False n_def by simp
        qed
      qed
    qed
  qed
qed


subsection \<open>openJoystickDevice: totality and the table\<close>

lemma first_free_all_present: "length xs \<le> first_free xs \<Longrightarrow> j \<in> set xs \<Longrightarrow> present j"
  by (induction xs) (auto split: if_splits)

lemma path_in_use_iff:
  assumes "path_in_use xs p = Inr b"
  shows "b \<longleftrightarrow> (\<exists>j \<in> set xs. present j \<and> path j = Some p)"
proof (cases b)
  case True
  with assms path_in_use_True[of xs p] show ?thesis by simp
next
  case False
  with assms path_in_use_False[of xs p] show ?thesis by auto
qed

lemma first_free_lt_iff: "first_free xs < length xs \<longleftrightarrow> (\<exists>i < length xs. \<not> present (xs ! i))"
  by (metis first_free_before first_free_free first_free_le order_less_le)



lemma openJoystickDevice_total:
  assumes "table_ok (js w)"
  shows "\<exists>r w'. openJoystickDevice p w = Inr (r, w')"
proof -
  from assms obtain b where b: "path_in_use (js w) p = Inr b"
    using path_in_use_total by blast
  have n1: "lowest_free 0 (map fst (fds w)) \<noteq> - 1" by (rule lowest_free_not_minus1)
  show ?thesis
  proof (cases "map_of (files w) p")
    case None
    with b show ?thesis by (cases b) (auto simp: openJoystickDevice_def Let_def sys_open_def)
  next
    case (Some d)
    with b n1 show ?thesis
      by (cases b) (auto simp: openJoystickDevice_def Let_def sys_open_def)
  qed
qed

lemma table_ok_update: "table_ok xs \<Longrightarrow> (present j \<Longrightarrow> path j \<noteq> None) \<Longrightarrow> table_ok (xs[i := j])"
  unfolding table_ok_def list_all_iff using set_update_subset_insert[of xs i j] by auto

lemma openJoystickDevice_table_ok:
  assumes "openJoystickDevice p w = Inr (r, w')" and "table_ok (js w)"
  shows "table_ok (js w')"
  using assms(1)
proof (cases rule: openJoystickDevice_cases)
  case refused
  with assms(2) show ?thesis by simp
next
  case failed
  with assms(2) show ?thesis by simp
next
  case (old d n)
  with assms(2) show ?thesis by simp
next
  case (opened d n)
  with assms(2) show ?thesis by (simp add: table_ok_update)
qed

subsection \<open>Claims about openJoystickDevice\<close>





text \<open>
  C3. The table keeps its length, and \<open>openJoystickDevice\<close> leaves every slot that is
  present as it is. It returns true exactly when some slot is free, no present slot holds
  the path, and the path opens on a device whose driver version is at least \<open>0x010000\<close>;
  it has then filled the free slot with the lowest index (every slot before it is
  present) with the path and changed no other. When it returns false the table is as it
  was; when every slot is present it returns false and leaves the whole world, with its
  record of \<open>open\<close> calls, as it was. The number of present slots is therefore at most
  the length of the table.
\<close>

theorem openJoystickDevice_slot_table:
  assumes "openJoystickDevice p w = Inr (r, w')"
  shows "length (js w') = length (js w)
       \<and> (\<forall>i < length (js w). present (js w ! i) \<longrightarrow> js w' ! i = js w ! i)
       \<and> (r \<longleftrightarrow> (\<exists>i < length (js w). \<not> present (js w ! i)) \<and>
                 \<not> (\<exists>j \<in> set (js w). present j \<and> path j = Some p) \<and>
                 (\<exists>d. map_of (files w) p = Some d \<and> \<not> d_version d < 0x010000))
       \<and> (r \<longrightarrow> (\<exists>jid < length (js w).
                  \<not> present (js w ! jid) \<and> (\<forall>i < jid. present (js w ! i)) \<and>
                  present (js w' ! jid) \<and> path (js w' ! jid) = Some p \<and>
                  (\<forall>i < length (js w). i \<noteq> jid \<longrightarrow> js w' ! i = js w ! i)))
       \<and> (\<not> r \<longrightarrow> js w' = js w)
       \<and> ((\<forall>j \<in> set (js w). present j) \<longrightarrow> \<not> r \<and> w' = w)
       \<and> length (filter present (js w')) \<le> length (js w)"
  using assms
proof (cases rule: openJoystickDevice_cases)
  case refused
  have "\<not> ((\<exists>i < length (js w). \<not> present (js w ! i)) \<and>
           \<not> (\<exists>j \<in> set (js w). present j \<and> path j = Some p))"
  proof (cases "path_in_use (js w) p = Inr True")
    case True
    then show ?thesis using path_in_use_iff[of "js w" p True] by simp
  next
    case False
    with refused(3) have "\<not> first_free (js w) < length (js w)" by simp
    then show ?thesis by (simp only: first_free_lt_iff) simp
  qed
  with refused(1,2) show ?thesis by auto
next
  case failed
  from failed(3) have "\<not> present (js w ! first_free (js w))" by (rule first_free_free)
  with failed(3) have nall: "\<not> (\<forall>j \<in> set (js w). present j)" using nth_mem by blast
  have "length (filter present (js w)) \<le> length (js w)" by (rule length_filter_le)
  with failed(1,4,5) nall show ?thesis by auto
next
  case (old d n)
  from old(3) have "\<not> present (js w ! first_free (js w))" by (rule first_free_free)
  with old(3) have nall: "\<not> (\<forall>j \<in> set (js w). present j)" using nth_mem by blast
  have "length (filter present (js w)) \<le> length (js w)" by (rule length_filter_le)
  with old(1,4,5,7) nall show ?thesis by auto
next
  case (opened d n)
  let ?k = "first_free (js w)"
  from opened(3) have nf: "\<not> present (js w ! ?k)" by (rule first_free_free)
  with opened(3) have nall: "\<not> (\<forall>j \<in> set (js w). present j)" using nth_mem by blast
  have len: "length (js w') = length (js w)" using opened by simp
  have keep: "\<forall>i < length (js w). i \<noteq> ?k \<longrightarrow> js w' ! i = js w ! i" using opened by simp
  have new: "present (js w' ! ?k)" "path (js w' ! ?k) = Some p" using opened by simp_all
  have before: "\<forall>i < ?k. present (js w ! i)" using first_free_before by blast
  have "length (filter present (js w')) \<le> length (js w')" by (rule length_filter_le)
  with len have cnt: "length (filter present (js w')) \<le> length (js w)" by simp
  from keep nf have kept: "\<forall>i < length (js w). present (js w ! i) \<longrightarrow> js w' ! i = js w ! i"
    by metis
  from opened(3) have free: "\<exists>i < length (js w). \<not> present (js w ! i)"
    by (simp only: first_free_lt_iff)
  from opened(2) have unheld: "\<not> (\<exists>j \<in> set (js w). present j \<and> path j = Some p)"
    using path_in_use_iff[of "js w" p False] by simp
  from opened(4,5) have good: "\<exists>d. map_of (files w) p = Some d \<and> \<not> d_version d < 0x010000"
    by blast
  from opened(3) nf before new keep
  have fill: "\<exists>jid < length (js w).
                  \<not> present (js w ! jid) \<and> (\<forall>i < jid. present (js w ! i)) \<and>
                  present (js w' ! jid) \<and> path (js w' ! jid) = Some p \<and>
                  (\<forall>i < length (js w). i \<noteq> jid \<longrightarrow> js w' ! i = js w ! i)"
    by blast
  from opened(1) len kept free unheld good fill nall cnt show ?thesis by blast
qed

theorem openJoystickDevice_slot_table_witness:
  "openJoystickDevice ''/dev/input/js1'' example_second = Inr (True, example_second_opened)
   \<and> present (js example_second ! 0) \<and> \<not> present (js example_second ! 1)
   \<and> present (js example_second_opened ! 1)
   \<and> path (js example_second_opened ! 1) = Some ''/dev/input/js1''
   \<and> js example_second_opened ! 0 = js example_second ! 0
   \<and> length (js example_second_opened) = length (js example_second)
   \<and> length (filter present (js example_second_opened)) \<le> length (js example_second)
   \<and> list_all present (js example_full)
   \<and> openJoystickDevice ''/dev/input/js9'' example_full = Inr (False, example_full)"
proof -
  have h: "openJoystickDevice ''/dev/input/js1'' example_second = Inr (True, example_second_opened)"
    by code_simp
  have p0: "present (js example_second ! 0)" by code_simp
  have p1: "\<not> present (js example_second ! 1)" by code_simp
  have l: "length (js example_second) = 2" by code_simp
  have f: "list_all present (js example_full)" by code_simp
  have 2: "openJoystickDevice ''/dev/input/js9'' example_full = Inr (False, example_full)"
    by code_simp
  from openJoystickDevice_slot_table[OF 2] f have 3: "\<not> False \<and> example_full = example_full"
    by (simp add: list_all_iff)
  note t = openJoystickDevice_slot_table[OF h]
  from t obtain jid where j: "jid < length (js example_second)"
    "\<not> present (js example_second ! jid)" "\<forall>i < jid. present (js example_second ! i)"
    "present (js example_second_opened ! jid)"
    "path (js example_second_opened ! jid) = Some ''/dev/input/js1''"
    by blast
  from j(1,2) l p0 have "jid = 1" by (cases jid) auto
  with j have n: "present (js example_second_opened ! 1)"
    "path (js example_second_opened ! 1) = Some ''/dev/input/js1''" by simp_all
  from t p0 l have k: "js example_second_opened ! 0 = js example_second ! 0" by simp
  from t have m: "length (js example_second_opened) = length (js example_second)"
    "length (filter present (js example_second_opened)) \<le> length (js example_second)"
    by blast+
  from h p0 p1 n k m f 2 show ?thesis by blast
qed

text \<open>
  C4. When the device at the path reports a driver version below \<open>0x010000\<close>,
  \<open>openJoystickDevice\<close> returns false, the table is as before, nothing is notified and
  the set of open descriptors is as before: either the device was not opened at all
  (the path is held by a present slot, or no slot is free), or it was opened and the
  descriptor \<open>open\<close> returned was closed right after.
\<close>

theorem openJoystickDevice_old_version:
  assumes "openJoystickDevice p w = Inr (r, w')"
    and "map_of (files w) p = Some d" and "d_version d < 0x010000"
  shows "\<not> r \<and> js w' = js w \<and> changes w' = changes w \<and> fds w' = fds w
       \<and> ((syscalls w' = syscalls w \<and>
            ((\<exists>j \<in> set (js w). present j \<and> path j = Some p) \<or> (\<forall>j \<in> set (js w). present j)))
          \<or> (\<exists>n. syscalls w' = syscalls w @ [Open p n, Close n]))"
  using assms(1)
proof (cases rule: openJoystickDevice_cases)
  case refused
  from refused(3) assms(2)
  have "(\<exists>j \<in> set (js w). present j \<and> path j = Some p) \<or> (\<forall>j \<in> set (js w). present j)"
    using path_in_use_True[of "js w" p] first_free_all_present[of "js w"] by auto
  with refused show ?thesis by simp
next
  case failed
  with assms(2) show ?thesis by simp
next
  case (old d' n)
  then show ?thesis by simp
next
  case (opened d' n)
  with assms(2,3) show ?thesis by simp
qed

theorem openJoystickDevice_old_version_witness:
  "openJoystickDevice ''/dev/input/js9'' example_world = Inr (False, example_old)
   \<and> map_of (files example_world) ''/dev/input/js9'' = Some old_pad
   \<and> d_version old_pad < 0x010000
   \<and> js example_old = js example_world \<and> changes example_old = changes example_world
   \<and> fds example_old = fds example_world
   \<and> syscalls example_old = [Open ''/dev/input/js9'' 0, Close 0]"
proof -
  have h: "openJoystickDevice ''/dev/input/js9'' example_world = Inr (False, example_old)"
    by code_simp
  have f: "map_of (files example_world) ''/dev/input/js9'' = Some old_pad" by code_simp
  have v: "d_version old_pad < 0x010000" by code_simp
  have s: "syscalls example_old = [Open ''/dev/input/js9'' 0, Close 0]" by code_simp
  from openJoystickDevice_old_version[OF h f v] h f v s show ?thesis by blast
qed


subsection \<open>The loop of reads\<close>

lemma sys_read_cases:
  assumes "sys_read n w = (r, w1)"
  obtains
    (closed) "map_of (fds w) n = None" "r = Failed EBADF" "w1 = w"
  | (drained) d where "map_of (fds w) n = Some d" "d_queue d = []" "r = Failed EAGAIN" "w1 = w"
  | (popped) d rs where "map_of (fds w) n = Some d" "d_queue d = r # rs"
      "map_of (fds w1) n = Some (d\<lparr>d_queue := rs\<rparr>)"
      "js w1 = js w" "changes w1 = changes w" "files w1 = files w" "syscalls w1 = syscalls w"
      "errors w1 = errors w"
proof (cases "map_of (fds w) n")
  case None
  with assms have "r = Failed EBADF" and "w1 = w" by (simp_all add: sys_read_def)
  with None show thesis by (rule closed)
next
  case (Some d)
  show thesis
  proof (cases "d_queue d")
    case Nil
    with assms Some have "r = Failed EAGAIN" and "w1 = w" by (simp_all add: sys_read_def)
    with Some Nil show thesis by (rule drained)
  next
    case (Cons r' rs)
    with assms Some have r: "r = r'"
      and w1: "w1 = w\<lparr>fds := map (\<lambda>kv. if fst kv = n then (n, d\<lparr>d_queue := rs\<rparr>) else kv) (fds w)\<rparr>"
      by (simp_all add: sys_read_def)
    have q: "d_queue d = r # rs" using Cons r by simp
    have m: "map_of (fds w1) n = Some (d\<lparr>d_queue := rs\<rparr>)"
      using w1 map_of_map_upd[OF Some, of "d\<lparr>d_queue := rs\<rparr>"] by simp
    show thesis by (rule popped[OF Some q m]) (simp_all add: w1)
  qed
qed

lemma handle_event_same:
  assumes "handle_event ev j = Inr j'"
  shows "present j' = present j \<and> fd j' = fd j \<and> axisCount j' = axisCount j \<and>
         buttonCount j' = buttonCount j \<and> name j' = name j \<and> path j' = path j"
  using assms by (auto simp: handle_event_def Let_def split: if_splits sum.splits)

lemma ENODEV_not_others [simp]: "EBADF \<noteq> ENODEV" "EAGAIN \<noteq> ENODEV"
  by (simp_all add: EBADF_def ENODEV_def EAGAIN_def)

lemma read_events_result:
  assumes "read_events jid w = Inr w'" and "jid < length (js w)" and "n = fd (js w ! jid)"
  shows "length (js w') = length (js w) \<and> (\<forall>i. i \<noteq> jid \<longrightarrow> js w' ! i = js w ! i) \<and>
         map_of (fds w') n =
           map_option (\<lambda>d. d\<lparr>d_queue := after_failure (d_queue d)\<rparr>) (map_of (fds w) n) \<and>
         files w' = files w \<and> syscalls w' = syscalls w \<and> errors w' = errors w \<and>
         (if poll_errno n w = ENODEV
          then js w' ! jid = zero_joystick \<and> changes w' = changes w @ [(jid, GLFW_DISCONNECTED)]
          else changes w' = changes w \<and>
               present (js w' ! jid) = present (js w ! jid) \<and> fd (js w' ! jid) = fd (js w ! jid) \<and>
               axisCount (js w' ! jid) = axisCount (js w ! jid) \<and>
               buttonCount (js w' ! jid) = buttonCount (js w ! jid) \<and>
               name (js w' ! jid) = name (js w ! jid) \<and> path (js w' ! jid) = path (js w ! jid))"
  using assms
proof (induction "pending n w" arbitrary: w rule: less_induct)
  case less
  obtain r w1 where sr: "sys_read n w = (r, w1)" by (cases "sys_read n w")
  from sr show ?case
  proof (cases rule: sys_read_cases)
    case closed
    with less.prems sr have "w' = w"
      by (subst (asm) read_events.simps) simp
    with closed show ?thesis by (simp add: poll_errno_def)
  next
    case (drained d)
    with less.prems sr have "w' = w"
      by (subst (asm) read_events.simps) simp
    with drained show ?thesis by (simp add: poll_errno_def)
  next
    case (popped d rs)
    show ?thesis
    proof (cases r)
      case (Failed e)
      with less.prems sr have w': "w' = (if e = ENODEV
          then glfwInputJoystickChange jid GLFW_DISCONNECTED (w1\<lparr>js := (js w1)[jid := zero_joystick]\<rparr>)
          else w1)"
        by (subst (asm) read_events.simps) (simp split: if_splits)
      from popped Failed have pe: "poll_errno n w = e" by (simp add: poll_errno_def)
      from w' pe popped Failed less.prems(2) show ?thesis
        by (simp add: glfwInputJoystickChange_def)
    next
      case (Event ev)
      with less.prems sr obtain j where
        he: "handle_event ev (js w1 ! jid) = Inr j" and
        rec: "read_events jid (w1\<lparr>js := (js w1)[jid := j]\<rparr>) = Inr w'"
        by (subst (asm) read_events.simps) (simp split: sum.splits)
      let ?w2 = "w1\<lparr>js := (js w1)[jid := j]\<rparr>"
      from he have same: "present j = present (js w ! jid) \<and> fd j = fd (js w ! jid) \<and>
          axisCount j = axisCount (js w ! jid) \<and> buttonCount j = buttonCount (js w ! jid) \<and>
          name j = name (js w ! jid) \<and> path j = path (js w ! jid)"
        using handle_event_same[OF he] popped(4) by simp
      have len: "jid < length (js ?w2)" using less.prems(2) popped(4) by simp
      have nn: "n = fd (js ?w2 ! jid)" using less.prems(2,3) popped(4) same by simp
      have pd: "pending n ?w2 < pending n w"
        using sys_read_Event_pending[of n w ev w1] sr Event by simp
      note ih = less.hyps[OF pd rec len nn]
      have pe: "poll_errno n ?w2 = poll_errno n w"
        using popped Event by (simp add: poll_errno_def)
      have q: "map_of (fds ?w2) n = Some (d\<lparr>d_queue := rs\<rparr>)" using popped by simp
      from ih pe q popped Event same less.prems(2) show ?thesis
        by (simp split: if_splits)
    qed
  qed
qed


lemma read_events_slot:
  assumes "read_events jid w = Inr w'" and "jid < length (js w)"
    and "poll_errno (fd (js w ! jid)) w \<noteq> ENODEV"
  shows "(\<forall>d. map_of (fds w) (fd (js w ! jid)) = Some d \<longrightarrow>
            apply_events (js w ! jid) (d_queue d) = Inr (js w' ! jid))
       \<and> (map_of (fds w) (fd (js w ! jid)) = None \<longrightarrow> js w' ! jid = js w ! jid)"
  using assms
proof (induction "pending (fd (js w ! jid)) w" arbitrary: w rule: less_induct)
  case less
  let ?n = "fd (js w ! jid)"
  obtain r w1 where sr: "sys_read ?n w = (r, w1)" by (cases "sys_read ?n w")
  from sr show ?case
  proof (cases rule: sys_read_cases)
    case closed
    with less.prems sr have "w' = w" by (subst (asm) read_events.simps) simp
    with closed show ?thesis by simp
  next
    case (drained d)
    with less.prems sr have "w' = w" by (subst (asm) read_events.simps) simp
    with drained show ?thesis by simp
  next
    case (popped d rs)
    show ?thesis
    proof (cases r)
      case (Failed e)
      from popped Failed have "poll_errno ?n w = e" by (simp add: poll_errno_def)
      with less.prems(3) have "e \<noteq> ENODEV" by simp
      with less.prems(1) sr Failed have "w' = w1" by (subst (asm) read_events.simps) simp
      with popped Failed show ?thesis by simp
    next
      case (Event ev)
      with less.prems sr obtain j where
        he: "handle_event ev (js w1 ! jid) = Inr j" and
        rec: "read_events jid (w1\<lparr>js := (js w1)[jid := j]\<rparr>) = Inr w'"
        by (subst (asm) read_events.simps) (simp split: sum.splits)
      let ?w2 = "w1\<lparr>js := (js w1)[jid := j]\<rparr>"
      have len: "jid < length (js ?w2)" using less.prems(2) popped(4) by simp
      have fdj: "fd (js ?w2 ! jid) = ?n"
        using handle_event_fd[OF he] less.prems(2) popped(4) by simp
      have pd: "pending (fd (js ?w2 ! jid)) ?w2 < pending ?n w"
        using sys_read_Event_pending[of ?n w ev w1] sr Event fdj by simp
      have pe: "poll_errno (fd (js ?w2 ! jid)) ?w2 \<noteq> ENODEV"
        using less.prems(3) popped Event fdj by (simp add: poll_errno_def)
      from less.hyps[OF pd rec len pe] fdj popped(3)
      have "apply_events (js ?w2 ! jid) rs = Inr (js w' ! jid)" by simp
      with he popped Event less.prems(2) show ?thesis by simp
    qed
  qed
qed

subsection \<open>Hot-plug events and the poll of one slot\<close>

lemma openJoystickDevice_length:
  "openJoystickDevice p w = Inr (r, w') \<Longrightarrow> length (js w') = length (js w)"
  by (erule openJoystickDevice_cases) simp_all

lemma hotplug_events_invariant:
  assumes step: "\<And>p w r w'. openJoystickDevice p w = Inr (r, w') \<Longrightarrow> Q w \<Longrightarrow> Q w'"
  shows "hotplug_events ns w = Inr w' \<Longrightarrow> Q w \<Longrightarrow> Q w'"
proof (induction ns arbitrary: w)
  case Nil
  then show ?case by simp
next
  case (Cons n ns)
  show ?case
  proof (cases "regexec_js n")
    case False
    with Cons show ?thesis by simp
  next
    case True
    with Cons.prems(1) obtain r w1 where
      o: "openJoystickDevice (device_path n) w = Inr (r, w1)" and h: "hotplug_events ns w1 = Inr w'"
      by (auto split: sum.splits)
    from step[OF o Cons.prems(2)] have "Q w1" .
    with Cons.IH[OF h] show ?thesis .
  qed
qed

lemma glfwPollJoystickEvents_invariant:
  assumes step: "\<And>p w r w'. openJoystickDevice p w = Inr (r, w') \<Longrightarrow> Q w \<Longrightarrow> Q w'"
    and "glfwPollJoystickEvents w = Inr w'" and "Q (w\<lparr>inotify_events := []\<rparr>)"
  shows "Q w'"
proof (rule hotplug_events_invariant[where Q=Q])
  show "\<And>p w r w'. openJoystickDevice p w = Inr (r, w') \<Longrightarrow> Q w \<Longrightarrow> Q w'" by (rule step)
  show "hotplug_events (inotify_events w) (w\<lparr>inotify_events := []\<rparr>) = Inr w'"
    using assms(2) by (simp add: glfwPollJoystickEvents_def)
  show "Q (w\<lparr>inotify_events := []\<rparr>)" by fact
qed

lemma glfwPollJoystickEvents_length:
  assumes "glfwPollJoystickEvents w = Inr w'"
  shows "length (js w') = length (js w)"
proof -
  have "length (js w') = length (js w)"
    by (rule glfwPollJoystickEvents_invariant[where Q="\<lambda>v. length (js v) = length (js w)", OF _ assms])
       (simp_all add: openJoystickDevice_length)
  then show ?thesis .
qed

lemma pollJoystickEvents_cases:
  assumes "pollJoystickEvents jid w = Inr (r, w')"
  obtains
    (absent) w1 where "glfwPollJoystickEvents w = Inr w1" "jid < length (js w1)"
      "\<not> present (js w1 ! jid)" "\<not> r" "w' = w1"
  | (polled) w1 where "glfwPollJoystickEvents w = Inr w1" "jid < length (js w1)"
      "present (js w1 ! jid)" "read_events jid w1 = Inr w'" "r = present (js w' ! jid)"
proof -
  from assms have len: "jid < length (js w)"
    by (simp add: pollJoystickEvents_def split: if_splits)
  with assms obtain w1 where g: "glfwPollJoystickEvents w = Inr w1"
    by (cases "glfwPollJoystickEvents w") (simp_all add: pollJoystickEvents_def)
  from g len have len1: "jid < length (js w1)" using glfwPollJoystickEvents_length by simp
  show thesis
  proof (cases "present (js w1 ! jid)")
    case False
    with assms len g have "\<not> r" and "w' = w1" by (simp_all add: pollJoystickEvents_def)
    with g len1 False show thesis by (rule absent)
  next
    case True
    with assms len g have "read_events jid w1 = Inr w'" and "r = present (js w' ! jid)"
      by (auto simp: pollJoystickEvents_def split: sum.splits)
    with g len1 True show thesis by (rule polled)
  qed
qed

text \<open>
  C1. \<open>pollJoystickEvents\<close> first lets \<open>_glfwPollJoystickEvents\<close> handle hot-plug events,
  which leaves a world \<open>w1\<close>. A slot that is not present then is not read and the answer
  is false. A present slot is read until the first \<open>read\<close> that fails: what stays queued
  on its descriptor is what followed that failure. When the failure is \<open>ENODEV\<close> the
  slot is all zero afterwards (not present, no arrays, no name, no path) and exactly one
  \<open>GLFW_DISCONNECTED\<close> call for the slot is added; on any other failure no call is added
  and the present flag, the two counts and the path of the slot are as in \<open>w1\<close>: the
  slot is that of \<open>w1\<close> after the events queued before the failure, handled in their
  order. No other slot changes, and the value returned is the present flag of the slot after the poll.
\<close>

theorem pollJoystickEvents_until_failed_read:
  assumes "pollJoystickEvents jid w = Inr (r, w')"
  shows "\<exists>w1. glfwPollJoystickEvents w = Inr w1 \<and> jid < length (js w1) \<and>
           r = present (js w' ! jid) \<and>
           (\<not> present (js w1 ! jid) \<longrightarrow> w' = w1) \<and>
           (present (js w1 ! jid) \<longrightarrow>
              map_of (fds w') (fd (js w1 ! jid)) =
                map_option (\<lambda>d. d\<lparr>d_queue := after_failure (d_queue d)\<rparr>)
                  (map_of (fds w1) (fd (js w1 ! jid))) \<and>
              (\<forall>i. i \<noteq> jid \<longrightarrow> js w' ! i = js w1 ! i) \<and>
              (poll_errno (fd (js w1 ! jid)) w1 = ENODEV \<longrightarrow>
                 js w' ! jid = zero_joystick \<and> \<not> r \<and>
                 changes w' = changes w1 @ [(jid, GLFW_DISCONNECTED)]) \<and>
              (poll_errno (fd (js w1 ! jid)) w1 \<noteq> ENODEV \<longrightarrow>
                 changes w' = changes w1 \<and> r \<and>
                 present (js w' ! jid) = present (js w1 ! jid) \<and>
                 axisCount (js w' ! jid) = axisCount (js w1 ! jid) \<and>
                 buttonCount (js w' ! jid) = buttonCount (js w1 ! jid) \<and>
                 path (js w' ! jid) = path (js w1 ! jid) \<and>
                 (\<forall>d. map_of (fds w1) (fd (js w1 ! jid)) = Some d \<longrightarrow>
                    apply_events (js w1 ! jid) (d_queue d) = Inr (js w' ! jid))))"
  using assms
proof (cases rule: pollJoystickEvents_cases)
  case (absent w1)
  then show ?thesis by auto
next
  case (polled w1)
  note res = read_events_result[OF polled(4) polled(2) refl]
  show ?thesis
  proof (cases "poll_errno (fd (js w1 ! jid)) w1 = ENODEV")
    case True
    with res polled show ?thesis by (intro exI[of _ w1]) (simp add: zero_joystick_def)
  next
    case False
    note slot = read_events_slot[OF polled(4) polled(2) False]
    with False res polled show ?thesis by (intro exI[of _ w1]) simp
  qed
qed

theorem pollJoystickEvents_until_failed_read_witness:
  "pollJoystickEvents 0 example_unplug = Inr (False, example_unplugged)
   \<and> pollJoystickEvents 0 example_move = Inr (True, example_moved)
   \<and> (\<exists>w1. glfwPollJoystickEvents example_unplug = Inr w1 \<and> present (js w1 ! 0) \<and>
         poll_errno (fd (js w1 ! 0)) w1 = ENODEV \<and>
         js example_unplugged ! 0 = zero_joystick \<and>
         changes example_unplugged = changes w1 @ [(0, GLFW_DISCONNECTED)])
   \<and> (\<exists>w1. glfwPollJoystickEvents example_move = Inr w1 \<and> present (js w1 ! 0) \<and>
         poll_errno (fd (js w1 ! 0)) w1 \<noteq> ENODEV \<and>
         changes example_moved = changes w1 \<and>
         path (js example_moved ! 0) = path (js w1 ! 0))
   \<and> \<not> present (js example_move ! 1)
   \<and> pollJoystickEvents 1 example_move = Inr (False, example_move)"
proof -
  have h1: "pollJoystickEvents 0 example_unplug = Inr (False, example_unplugged)" by code_simp
  have h3: "pollJoystickEvents 1 example_move = Inr (False, example_move)" by code_simp
  have p3: "\<not> present (js example_move ! 1)" by code_simp
  have h2: "pollJoystickEvents 0 example_move = Inr (True, example_moved)" by code_simp
  have g1: "glfwPollJoystickEvents example_unplug = Inr example_unplug" by code_simp
  have g2: "glfwPollJoystickEvents example_move = Inr example_move" by code_simp
  have p1: "present (js example_unplug ! 0)" by code_simp
  have p2: "present (js example_move ! 0)" by code_simp
  have e1: "poll_errno (fd (js example_unplug ! 0)) example_unplug = ENODEV" by code_simp
  have e2: "poll_errno (fd (js example_move ! 0)) example_move \<noteq> ENODEV" by code_simp
  from pollJoystickEvents_until_failed_read[OF h1] g1 p1 e1
  have a: "\<exists>w1. glfwPollJoystickEvents example_unplug = Inr w1 \<and> present (js w1 ! 0) \<and>
         poll_errno (fd (js w1 ! 0)) w1 = ENODEV \<and>
         js example_unplugged ! 0 = zero_joystick \<and>
         changes example_unplugged = changes w1 @ [(0, GLFW_DISCONNECTED)]"
    by (intro exI[of _ example_unplug]) auto
  from pollJoystickEvents_until_failed_read[OF h2] g2 p2 e2
  have b: "\<exists>w1. glfwPollJoystickEvents example_move = Inr w1 \<and> present (js w1 ! 0) \<and>
         poll_errno (fd (js w1 ! 0)) w1 \<noteq> ENODEV \<and>
         changes example_moved = changes w1 \<and>
         path (js example_moved ! 0) = path (js w1 ! 0)"
    by (intro exI[of _ example_move]) auto
  from pollJoystickEvents_until_failed_read[OF h3] g2 p3
  have c: "example_move = example_move" by blast
  from h1 h2 h3 p3 a b c show ?thesis by blast
qed


subsection \<open>Invariants through the operations\<close>

lemma read_events_invariant:
  assumes ev: "\<And>ev j j'. handle_event ev j = Inr j' \<Longrightarrow> P j \<Longrightarrow> P j'"
    and zero: "P zero_joystick"
  shows "read_events jid w = Inr w' \<Longrightarrow> list_all P (js w) \<Longrightarrow> list_all P (js w')"
proof (induction "pending (fd (js w ! jid)) w" arbitrary: w rule: less_induct)
  case less
  let ?n = "fd (js w ! jid)"
  obtain r w1 where sr: "sys_read ?n w = (r, w1)" by (cases "sys_read ?n w")
  have upd: "\<And>xs j. list_all P xs \<Longrightarrow> P j \<Longrightarrow> list_all P (xs[jid := j])"
    unfolding list_all_iff using set_update_subset_insert by fastforce
  from sr show ?case
  proof (cases rule: sys_read_cases)
    case closed
    with less.prems sr have "w' = w" by (subst (asm) read_events.simps) simp
    with less.prems show ?thesis by simp
  next
    case (drained d)
    with less.prems sr have "w' = w" by (subst (asm) read_events.simps) simp
    with less.prems show ?thesis by simp
  next
    case (popped d rs)
    show ?thesis
    proof (cases r)
      case (Failed e)
      with less.prems sr have "js w' = js w1 \<or> js w' = (js w1)[jid := zero_joystick]"
        by (subst (asm) read_events.simps)
           (auto simp: glfwInputJoystickChange_def split: if_splits)
      with popped(4) less.prems(2) upd[OF _ zero] show ?thesis by auto
    next
      case (Event ev)
      with less.prems sr obtain j where
        he: "handle_event ev (js w1 ! jid) = Inr j" and
        rec: "read_events jid (w1\<lparr>js := (js w1)[jid := j]\<rparr>) = Inr w'"
        by (subst (asm) read_events.simps) (simp split: sum.splits)
      let ?w2 = "w1\<lparr>js := (js w1)[jid := j]\<rparr>"
      have all2: "list_all P (js ?w2)"
      proof (cases "jid < length (js w)")
        case True
        with less.prems(2) have "P (js w ! jid)" by (simp add: list_all_length)
        with he popped(4) have "P j" using ev by simp
        with less.prems(2) popped(4) show ?thesis by (simp add: upd)
      next
        case False
        with less.prems(2) popped(4) show ?thesis by (simp add: list_update_beyond)
      qed
      have fdj: "fd (js ?w2 ! jid) = ?n"
        using handle_event_fd[OF he] popped(4) by (simp add: fd_nth_update)
      have pd: "pending (fd (js ?w2 ! jid)) ?w2 < pending ?n w"
        using sys_read_Event_pending[of ?n w ev w1] sr Event fdj by simp
      from less.hyps[OF pd rec all2] show ?thesis .
    qed
  qed
qed

lemma openJoystickDevice_invariant:
  assumes "openJoystickDevice p w = Inr (r, w')" and "list_all P (js w)"
    and new: "\<And>j. present j \<Longrightarrow> path j = Some p \<Longrightarrow>
               (\<forall>bs. buttons j = Some bs \<longrightarrow> bs = replicate (length bs) GLFW_RELEASE) \<Longrightarrow>
               (\<forall>as. axes j = Some as \<longrightarrow> as = replicate (length as) 0) \<Longrightarrow> P j"
  shows "list_all P (js w')"
  using assms(1)
proof (cases rule: openJoystickDevice_cases)
  case refused
  with assms(2) show ?thesis by simp
next
  case failed
  with assms(2) show ?thesis by simp
next
  case (old d n)
  with assms(2) show ?thesis by simp
next
  case (opened d n)
  let ?j = "\<lparr>present = True, fd = n,
                  axes = glfw_calloc (sint (d_axes d)) 0, axisCount = sint (d_axes d),
                  buttons = glfw_calloc (sint (d_buttons d)) 0, buttonCount = sint (d_buttons d),
                  name = Some (case d_name d of None \<Rightarrow> ''Unknown'' | Some s \<Rightarrow> s),
                  path = Some p\<rparr>"
  have "P ?j" by (rule new) (auto simp: glfw_calloc_def GLFW_RELEASE_def split: if_splits)
  moreover have "\<And>xs j i. list_all P xs \<Longrightarrow> P j \<Longrightarrow> list_all P (xs[i := j])"
    unfolding list_all_iff using set_update_subset_insert by fastforce
  ultimately show ?thesis using opened(7) assms(2) by simp
qed


subsection \<open>Initialisation: the scan and the sort\<close>

lemma readdir_loop_invariant:
  assumes step: "\<And>p w r w'. openJoystickDevice p w = Inr (r, w') \<Longrightarrow> Q w \<Longrightarrow> Q w'"
  shows "readdir_loop ns c w = Inr (c', w') \<Longrightarrow> Q w \<Longrightarrow> Q w'"
proof (induction ns arbitrary: w c)
  case Nil
  then show ?case by simp
next
  case (Cons n ns)
  show ?case
  proof (cases "regexec_js n")
    case False
    with Cons show ?thesis by simp
  next
    case True
    with Cons.prems(1) obtain r w1 where
      o: "openJoystickDevice (device_path n) w = Inr (r, w1)"
      and h: "readdir_loop ns (if r then c + 1 else c) w1 = Inr (c', w')"
      by (auto split: sum.splits)
    from step[OF o Cons.prems(2)] have "Q w1" .
    with Cons.IH[OF h] show ?thesis .
  qed
qed

lemma qsort_insert_mset: "qsort_insert cmp x ys = Inr zs \<Longrightarrow> mset zs = add_mset x (mset ys)"
proof (induction ys arbitrary: zs)
  case Nil
  then show ?case by auto
next
  case (Cons y ys)
  then show ?case by (auto split: sum.splits if_splits)
qed

lemma glfw_qsort_mset: "glfw_qsort cmp xs = Inr ys \<Longrightarrow> mset ys = mset xs"
proof (induction xs arbitrary: ys)
  case Nil
  then show ?case by simp
next
  case (Cons x xs)
  then show ?case by (auto split: sum.splits dest: qsort_insert_mset)
qed

lemma add_watch_fields [simp]:
  "js (add_watch w) = js w" "changes (add_watch w) = changes w"
  "syscalls (add_watch w) = syscalls w" "fds (add_watch w) = fds w"
  "files (add_watch w) = files w" "dev_input (add_watch w) = dev_input w"
  "ret_regcomp (add_watch w) = ret_regcomp w" "inotify (add_watch w) = inotify w"
  "ret_inotify_init1 (add_watch w) = ret_inotify_init1 w"
  by (simp_all add: add_watch_def Let_def glfwInputError_def)

lemma glfwInitJoysticksLinux_cases:
  assumes "glfwInitJoysticksLinux w = Inr (r, w')"
  obtains
    (no_inotify) "ret_inotify_init1 w = - 1" "\<not> r" "js w' = js w" "changes w' = changes w"
      "syscalls w' = syscalls w"
      "w' = glfwInputError GLFW_PLATFORM_ERROR ''Linux: Failed to initialize inotify: %s''
              (w\<lparr>inotify := ret_inotify_init1 w\<rparr>)"
  | (no_regex) "ret_inotify_init1 w \<noteq> - 1" "ret_regcomp w \<noteq> 0" "\<not> r" "js w' = js w"
      "changes w' = changes w" "syscalls w' = syscalls w"
      "w' = glfwInputError GLFW_PLATFORM_ERROR ''Linux: Failed to compile regex''
              (add_watch (w\<lparr>inotify := ret_inotify_init1 w\<rparr>))"
  | (no_directory) "ret_inotify_init1 w \<noteq> - 1" "ret_regcomp w = 0" "dev_input w = None" "r"
      "js w' = js w" "changes w' = changes w" "syscalls w' = syscalls w"
      "(GLFW_PLATFORM_ERROR, ''Linux: Failed to open joystick device directory %s: %s'')
         \<in> set (errors w')"
      "w' = glfwInputError GLFW_PLATFORM_ERROR
              ''Linux: Failed to open joystick device directory %s: %s''
              (add_watch (w\<lparr>inotify := ret_inotify_init1 w\<rparr>))"
  | (scanned) entries w3 cnt w4 sorted_js where
      "ret_inotify_init1 w \<noteq> - 1" "ret_regcomp w = 0" "dev_input w = Some entries" "r"
      "js w3 = js w" "changes w3 = changes w" "syscalls w3 = syscalls w" "fds w3 = fds w"
      "files w3 = files w"
      "readdir_loop entries 0 w3 = Inr (cnt, w4)"
      "glfw_qsort compareJoysticks (take cnt (js w4)) = Inr sorted_js"
      "w' = w4\<lparr>js := sorted_js @ drop cnt (js w4)\<rparr>"
      "w3 = add_watch (w\<lparr>inotify := ret_inotify_init1 w\<rparr>)"
proof -
  define w3 where "w3 = add_watch (w\<lparr>inotify := ret_inotify_init1 w\<rparr>)"
  have w3: "js w3 = js w" "changes w3 = changes w" "syscalls w3 = syscalls w" "fds w3 = fds w"
    "files w3 = files w"
    by (simp_all add: w3_def)
  have w3': "dev_input w3 = dev_input w" "ret_regcomp w3 = ret_regcomp w"
    by (simp_all add: w3_def)
  show thesis
  proof (cases "ret_inotify_init1 w = - 1")
    case True
    with assms have "\<not> r" "js w' = js w" "changes w' = changes w" "syscalls w' = syscalls w"
      "w' = glfwInputError GLFW_PLATFORM_ERROR ''Linux: Failed to initialize inotify: %s''
              (w\<lparr>inotify := ret_inotify_init1 w\<rparr>)"
      by (auto simp: glfwInitJoysticksLinux_def Let_def glfwInputError_def)
    with True show thesis by (rule no_inotify)
  next
    case ni: False
    show thesis
    proof (cases "ret_regcomp w = 0")
      case False
      with assms ni w3' have "\<not> r \<and> w' = glfwInputError GLFW_PLATFORM_ERROR
                               ''Linux: Failed to compile regex'' w3"
        by (auto simp: glfwInitJoysticksLinux_def Let_def w3_def[symmetric])
      with w3 have "\<not> r" "js w' = js w" "changes w' = changes w" "syscalls w' = syscalls w"
        "w' = glfwInputError GLFW_PLATFORM_ERROR ''Linux: Failed to compile regex''
                (add_watch (w\<lparr>inotify := ret_inotify_init1 w\<rparr>))"
        by (simp_all add: glfwInputError_def w3_def)
      with ni False show thesis by (rule no_regex)
    next
      case rc: True
      show thesis
      proof (cases "dev_input w")
        case None
        with assms ni rc w3' have "r \<and> w' = glfwInputError GLFW_PLATFORM_ERROR
                   ''Linux: Failed to open joystick device directory %s: %s'' w3"
          by (auto simp: glfwInitJoysticksLinux_def Let_def w3_def[symmetric])
        with w3 have "r" "js w' = js w" "changes w' = changes w" "syscalls w' = syscalls w"
          "(GLFW_PLATFORM_ERROR, ''Linux: Failed to open joystick device directory %s: %s'')
             \<in> set (errors w')"
          "w' = glfwInputError GLFW_PLATFORM_ERROR
                  ''Linux: Failed to open joystick device directory %s: %s''
                  (add_watch (w\<lparr>inotify := ret_inotify_init1 w\<rparr>))"
          by (simp_all add: glfwInputError_def w3_def)
        with ni rc None show thesis by (rule no_directory)
      next
        case (Some entries)
        from assms ni rc Some w3' have
          "(case readdir_loop entries 0 w3 of
              Inl f \<Rightarrow> Inl f
            | Inr (cnt, w4) \<Rightarrow>
                (case glfw_qsort compareJoysticks (take cnt (js w4)) of
                   Inl f \<Rightarrow> Inl f
                 | Inr sorted_js \<Rightarrow> Inr (True, w4\<lparr>js := sorted_js @ drop cnt (js w4)\<rparr>)))
           = Inr (r, w')"
          by (simp add: glfwInitJoysticksLinux_def Let_def w3_def[symmetric])
        then obtain cnt w4 sorted_js where
          rd: "readdir_loop entries 0 w3 = Inr (cnt, w4)"
          and qs: "glfw_qsort compareJoysticks (take cnt (js w4)) = Inr sorted_js"
          and res: "r" "w' = w4\<lparr>js := sorted_js @ drop cnt (js w4)\<rparr>"
          by (auto split: sum.splits prod.splits)
        show thesis
          by (rule scanned[OF ni rc Some res(1) w3(1) w3(2) w3(3) w3(4) w3(5) rd qs res(2) w3_def])
      qed
    qed
  qed
qed

lemma glfwInitJoysticksLinux_invariant:
  assumes step: "\<And>p w r w'. openJoystickDevice p w = Inr (r, w') \<Longrightarrow>
                   list_all P (js w) \<Longrightarrow> list_all P (js w')"
    and "glfwInitJoysticksLinux w = Inr (r, w')" and "list_all P (js w)"
  shows "list_all P (js w')"
  using assms(2)
proof (cases rule: glfwInitJoysticksLinux_cases)
  case (scanned entries w3 cnt w4 sorted_js)
  have "list_all P (js w4)"
  proof (rule readdir_loop_invariant[where Q="\<lambda>v. list_all P (js v)"])
    show "\<And>p w r w'. openJoystickDevice p w = Inr (r, w') \<Longrightarrow>
            list_all P (js w) \<Longrightarrow> list_all P (js w')" by (rule step)
    show "readdir_loop entries 0 w3 = Inr (cnt, w4)" by fact
    show "list_all P (js w3)" using scanned(5) assms(3) by simp
  qed
  moreover have "set sorted_js = set (take cnt (js w4))"
    using glfw_qsort_mset[OF scanned(11)] by (rule mset_eq_setD)
  moreover have "js w' = sorted_js @ drop cnt (js w4)" using scanned(12) by simp
  ultimately show ?thesis
    unfolding list_all_iff by (auto dest: in_set_takeD in_set_dropD)
qed (use assms(3) in simp_all)


subsection \<open>Button states\<close>

lemma button_value_boolean: "button_value ev = GLFW_PRESS \<or> button_value ev = GLFW_RELEASE"
  by (simp add: button_value_def)

lemma handle_event_buttons_ok:
  assumes "handle_event ev j = Inr j'" and "slot_buttons_ok j"
  shows "slot_buttons_ok j'"
proof -
  have upd: "\<And>bs i. list_all (\<lambda>b. b = GLFW_PRESS \<or> b = GLFW_RELEASE) bs \<Longrightarrow>
      list_all (\<lambda>b. b = GLFW_PRESS \<or> b = GLFW_RELEASE) (bs[i := button_value ev])"
    unfolding list_all_iff using set_update_subset_insert button_value_boolean by fastforce
  from assms show ?thesis
    by (auto simp: handle_event_def Let_def slot_buttons_ok_def store_def upd
             split: if_splits sum.splits option.splits)
qed

lemma handle_event_button:
  assumes "handle_event ev j = Inr j'" and "e_type ev AND NOT JS_EVENT_INIT = JS_EVENT_BUTTON"
  shows "\<exists>bs. buttons j = Some bs \<and> unat (e_number ev) < length bs \<and>
           buttons j' = Some (bs[unat (e_number ev) :=
                                   (if e_value ev \<noteq> 0 then GLFW_PRESS else GLFW_RELEASE)])"
proof -
  have "JS_EVENT_BUTTON \<noteq> JS_EVENT_AXIS" by (simp add: JS_EVENT_BUTTON_def JS_EVENT_AXIS_def)
  with assms show ?thesis
    by (auto simp: handle_event_def Let_def store_def button_value_def
             split: if_splits sum.splits option.splits)
qed

lemma openJoystickDevice_buttons_ok:
  assumes "openJoystickDevice p w = Inr (r, w')" and "buttons_ok (js w)"
  shows "buttons_ok (js w')"
  unfolding buttons_ok_def
proof (rule openJoystickDevice_invariant[OF assms(1)])
  show "list_all slot_buttons_ok (js w)" using assms(2) by (simp add: buttons_ok_def)
next
  fix j :: joystick
  assume "\<forall>bs. buttons j = Some bs \<longrightarrow> bs = replicate (length bs) GLFW_RELEASE"
  then show "slot_buttons_ok j"
    by (cases "buttons j")
       (auto simp: slot_buttons_ok_def list_all_iff dest: arg_cong[where f=set] split: if_splits)
qed

text \<open>
  C7. If every button of every present slot is \<open>GLFW_PRESS\<close> or \<open>GLFW_RELEASE\<close>, it is
  so again after \<open>openJoystickDevice\<close>, \<open>_glfwPollJoystickEvents\<close>, \<open>pollJoystickEvents\<close>
  and \<open>_glfwInitJoysticksLinux\<close>; it is so in a table of zeroed slots. The slot
  \<open>openJoystickDevice\<close> fills has only \<open>GLFW_RELEASE\<close> in its button array, and a button
  event stores \<open>GLFW_PRESS\<close> at its number when its value is not zero and \<open>GLFW_RELEASE\<close>
  when it is zero.
\<close>

theorem button_states_boolean:
  assumes "buttons_ok (js w)"
  shows "buttons_ok (replicate k zero_joystick)
       \<and> (openJoystickDevice p w = Inr (r, w') \<longrightarrow> buttons_ok (js w'))
       \<and> (openJoystickDevice p w = Inr (True, w') \<longrightarrow>
            (\<exists>jid < length (js w). \<not> present (js w ! jid) \<and> present (js w' ! jid) \<and>
               (\<forall>bs. buttons (js w' ! jid) = Some bs \<longrightarrow> list_all (\<lambda>b. b = GLFW_RELEASE) bs)))
       \<and> (glfwPollJoystickEvents w = Inr w' \<longrightarrow> buttons_ok (js w'))
       \<and> (pollJoystickEvents jid w = Inr (r, w') \<longrightarrow> buttons_ok (js w'))
       \<and> (glfwInitJoysticksLinux w = Inr (r, w') \<longrightarrow> buttons_ok (js w'))
       \<and> (handle_event ev j = Inr j' \<and> e_type ev AND NOT JS_EVENT_INIT = JS_EVENT_BUTTON \<longrightarrow>
            (\<exists>bs. buttons j = Some bs \<and> unat (e_number ev) < length bs \<and>
               buttons j' = Some (bs[unat (e_number ev) :=
                                       (if e_value ev \<noteq> 0 then GLFW_PRESS else GLFW_RELEASE)])))"
proof -
  have zero: "buttons_ok (replicate k zero_joystick)"
    by (simp add: buttons_ok_def list_all_iff slot_buttons_ok_def zero_joystick_def)
  have "open": "buttons_ok (js w')" if "openJoystickDevice p w = Inr (r, w')"
    using that assms by (rule openJoystickDevice_buttons_ok)
  have fresh: "\<exists>jid < length (js w). \<not> present (js w ! jid) \<and> present (js w' ! jid) \<and>
               (\<forall>bs. buttons (js w' ! jid) = Some bs \<longrightarrow> list_all (\<lambda>b. b = GLFW_RELEASE) bs)"
    if "openJoystickDevice p w = Inr (True, w')"
    using that
  proof (cases rule: openJoystickDevice_cases)
    case (opened d n)
    from opened(3) have "\<not> present (js w ! first_free (js w))" by (rule first_free_free)
    with opened(3,7) show ?thesis
      by (intro exI[of _ "first_free (js w)"])
         (auto simp: glfw_calloc_def GLFW_RELEASE_def list_all_iff split: if_splits)
  qed simp_all
  have hot: "buttons_ok (js v')" if "glfwPollJoystickEvents v = Inr v'" "buttons_ok (js v)" for v v'
    by (rule glfwPollJoystickEvents_invariant[where Q="\<lambda>u. buttons_ok (js u)", OF _ that(1)])
       (use that(2) in \<open>simp_all add: openJoystickDevice_buttons_ok\<close>)
  have poll: "buttons_ok (js w')" if "pollJoystickEvents jid w = Inr (r, w')"
    using that
  proof (cases rule: pollJoystickEvents_cases)
    case (absent w1)
    with hot assms show ?thesis by simp
  next
    case (polled w1)
    from hot[OF polled(1) assms] have "list_all slot_buttons_ok (js w1)" by (simp add: buttons_ok_def)
    have "list_all slot_buttons_ok (js w')"
    proof (rule read_events_invariant[where P=slot_buttons_ok])
      show "\<And>ev j j'. handle_event ev j = Inr j' \<Longrightarrow> slot_buttons_ok j \<Longrightarrow> slot_buttons_ok j'"
        by (rule handle_event_buttons_ok)
      show "slot_buttons_ok zero_joystick" by (simp add: slot_buttons_ok_def zero_joystick_def)
      show "read_events jid w1 = Inr w'" by fact
      show "list_all slot_buttons_ok (js w1)" by fact
    qed
    then show ?thesis by (simp add: buttons_ok_def)
  qed
  have init: "buttons_ok (js w')" if "glfwInitJoysticksLinux w = Inr (r, w')"
    unfolding buttons_ok_def
    by (rule glfwInitJoysticksLinux_invariant[where P=slot_buttons_ok, OF _ that])
       (use assms openJoystickDevice_buttons_ok in \<open>auto simp: buttons_ok_def\<close>)
  from zero "open" fresh hot[OF _ assms] poll init handle_event_button[of ev j j']
  show ?thesis by blast
qed

theorem button_states_boolean_witness:
  "buttons_ok (js example_move)
   \<and> pollJoystickEvents 0 example_move = Inr (True, example_moved)
   \<and> buttons (js example_moved ! 0) = Some [GLFW_RELEASE, GLFW_RELEASE, GLFW_PRESS]
   \<and> buttons_ok (js example_moved)
   \<and> openJoystickDevice ''/dev/input/js0'' example_world = Inr (True, example_opened)
   \<and> buttons_ok (js example_opened)
   \<and> buttons (js example_opened ! 0) = Some [GLFW_RELEASE, GLFW_RELEASE, GLFW_RELEASE]
   \<and> glfwPollJoystickEvents example_hotplug = Inr example_hotplugged
   \<and> buttons_ok (js example_hotplugged)
   \<and> glfwInitJoysticksLinux example_boot = Inr (True, example_booted)
   \<and> buttons_ok (js example_booted)
   \<and> handle_event (button_event 2 1) pad_slot = Inr (pad_slot\<lparr>buttons := Some [0, 0, 1]\<rparr>)
   \<and> (\<exists>bs. buttons pad_slot = Some bs \<and>
         buttons (pad_slot\<lparr>buttons := Some [0, 0, 1]\<rparr>) = Some (bs[2 := GLFW_PRESS]))"
proof -
  have a: "buttons_ok (js example_move)" by code_simp
  have a0: "buttons_ok (js example_world)" by code_simp
  have a1: "buttons_ok (js example_hotplug)" by code_simp
  have a2: "buttons_ok (js example_boot)" by code_simp
  have h: "pollJoystickEvents 0 example_move = Inr (True, example_moved)" by code_simp
  have o: "openJoystickDevice ''/dev/input/js0'' example_world = Inr (True, example_opened)"
    by code_simp
  have g: "glfwPollJoystickEvents example_hotplug = Inr example_hotplugged" by code_simp
  have i: "glfwInitJoysticksLinux example_boot = Inr (True, example_booted)" by code_simp
  have e: "handle_event (button_event 2 1) pad_slot = Inr (pad_slot\<lparr>buttons := Some [0, 0, 1]\<rparr>)"
    by code_simp
  have t: "e_type (button_event 2 1) AND NOT JS_EVENT_INIT = JS_EVENT_BUTTON" by code_simp
  have n: "unat (e_number (button_event 2 1)) = 2" by code_simp
  have v: "e_value (button_event 2 1) \<noteq> 0" by code_simp
  have b: "buttons (js example_moved ! 0) = Some [GLFW_RELEASE, GLFW_RELEASE, GLFW_PRESS]"
    by code_simp
  have b0: "buttons (js example_opened ! 0) = Some [GLFW_RELEASE, GLFW_RELEASE, GLFW_RELEASE]"
    by code_simp
  from button_states_boolean[OF a, where jid=0 and r=True and w'=example_moved] h
  have 1: "buttons_ok (js example_moved)" by blast
  from button_states_boolean[OF a0, where p="''/dev/input/js0''" and r=True and w'=example_opened] o
  have 2: "buttons_ok (js example_opened)" by blast
  from button_states_boolean[OF a1, where w'=example_hotplugged] g
  have 3: "buttons_ok (js example_hotplugged)" by blast
  from button_states_boolean[OF a2, where r=True and w'=example_booted] i
  have 4: "buttons_ok (js example_booted)" by blast
  from button_states_boolean[OF a, where ev="button_event 2 1" and j=pad_slot
      and j'="pad_slot\<lparr>buttons := Some [0, 0, 1]\<rparr>"] e t
  have "\<exists>bs. buttons pad_slot = Some bs \<and> unat (e_number (button_event 2 1)) < length bs \<and>
          buttons (pad_slot\<lparr>buttons := Some [0, 0, 1]\<rparr>) =
            Some (bs[unat (e_number (button_event 2 1)) :=
                    (if e_value (button_event 2 1) \<noteq> 0 then GLFW_PRESS else GLFW_RELEASE)])"
    by blast
  with n v have 5: "\<exists>bs. buttons pad_slot = Some bs \<and>
         buttons (pad_slot\<lparr>buttons := Some [0, 0, 1]\<rparr>) = Some (bs[2 := GLFW_PRESS])"
    by auto
  from a h b 1 o 2 b0 g 3 i 4 e 5 show ?thesis by blast
qed


subsection \<open>Axis values\<close>

lemma round_even_cases: "round_even q = \<lfloor>q\<rfloor> \<or> round_even q = \<lfloor>q\<rfloor> + 1"
  by (simp add: round_even_def Let_def)

lemma round_even_le: "q \<le> of_int n \<Longrightarrow> round_even q \<le> n"
proof -
  assume a: "q \<le> of_int n"
  then have f: "\<lfloor>q\<rfloor> \<le> n" by (simp add: floor_le_iff)
  show ?thesis
  proof (cases "\<lfloor>q\<rfloor> = n")
    case True
    then have "of_int n \<le> q" using of_int_floor_le[of q] by simp
    with a have "q = of_int n" by simp
    then show ?thesis by (simp add: round_even_def Let_def)
  next
    case False
    with f have "\<lfloor>q\<rfloor> + 1 \<le> n" by simp
    with f round_even_cases[of q] show ?thesis by auto
  qed
qed

lemma round_even_ge: "of_int n \<le> q \<Longrightarrow> n \<le> round_even q"
proof -
  assume "of_int n \<le> q"
  then have "n \<le> \<lfloor>q\<rfloor>" by (simp add: le_floor_iff)
  with round_even_cases[of q] show ?thesis by auto
qed

lemma round_even_near: "\<bar>of_int (round_even q) - q\<bar> \<le> 1 / 2"
proof -
  have "of_int \<lfloor>q\<rfloor> \<le> q" "q < of_int \<lfloor>q\<rfloor> + 1" by linarith+
  then show ?thesis by (auto simp: round_even_def Let_def abs_le_iff)
qed

lemma ilog2_le_0: "x \<le> 1 \<Longrightarrow> ilog2 x \<le> 0"
  by (auto simp: ilog2_def compute_floorlog)

lemma f32_round_unit:
  assumes "\<bar>x\<bar> \<le> 1"
  shows "\<bar>f32_round x\<bar> \<le> 1"
proof (cases "x = 0")
  case True
  then show ?thesis by (simp add: f32_round_def)
next
  case False
  define m where "m = max (ilog2 \<bar>x\<bar>) (- 126)"
  define u :: rat where "u = 2 powi (m - 23)"
  define k where "k = nat (23 - m)"
  have m0: "m \<le> 0" using ilog2_le_0[OF assms] by (simp add: m_def)
  have upos: "0 < u" by (simp add: u_def)
  have uk: "u * 2 ^ k = 1"
  proof -
    have "(2::rat) ^ k = 2 powi (int k)" by simp
    also have "int k = 23 - m" using m0 by (simp add: k_def)
    finally have "u * 2 ^ k = 2 powi (m - 23) * 2 powi (23 - m)" by (simp add: u_def)
    also have "\<dots> = (2::rat) powi ((m - 23) + (23 - m))" by (subst power_int_add) simp_all
    finally show ?thesis by simp
  qed
  have "\<bar>x\<bar> / u \<le> 1 / u" using assms upos by (simp add: divide_right_mono)
  also have "1 / u = 2 ^ k" using uk upos by (simp add: field_simps)
  finally have "\<bar>x\<bar> / u \<le> of_int (2 ^ k)" by simp
  then have hi: "round_even (\<bar>x\<bar> / u) \<le> 2 ^ k" by (rule round_even_le)
  have "(of_int 0 :: rat) \<le> \<bar>x\<bar> / u" using upos by simp
  then have lo: "0 \<le> round_even (\<bar>x\<bar> / u)" by (rule round_even_ge)
  from hi have "(of_int (round_even (\<bar>x\<bar> / u)) :: rat) \<le> of_int (2 ^ k)" by (simp only: of_int_le_iff)
  then have "of_int (round_even (\<bar>x\<bar> / u)) * u \<le> 2 ^ k * u"
    using upos by (simp add: mult_right_mono)
  with uk have hi': "of_int (round_even (\<bar>x\<bar> / u)) * u \<le> 1" by (simp add: mult.commute)
  from lo upos have lo': "0 \<le> of_int (round_even (\<bar>x\<bar> / u)) * u" by simp
  have "f32_round x = sgn x * (of_int (round_even (\<bar>x\<bar> / u)) * u)"
    using False by (simp add: f32_round_def Let_def u_def m_def)
  moreover have "\<bar>sgn x\<bar> = 1" using False by (simp add: abs_sgn_eq)
  ultimately have "\<bar>f32_round x\<bar> = \<bar>of_int (round_even (\<bar>x\<bar> / u)) * u\<bar>"
    by (simp add: abs_mult)
  with lo' have "\<bar>f32_round x\<bar> = of_int (round_even (\<bar>x\<bar> / u)) * u" by simp
  with hi' show ?thesis by simp
qed

text \<open>The rounding is to a nearest neighbour: the exponent brackets the number, and the
  result is within half a unit in the last place of it.\<close>

lemma ilog2_bounds:
  assumes "0 < x"
  shows "2 powi (ilog2 x) \<le> x \<and> x < 2 powi (ilog2 x + 1)"
proof (cases "1 \<le> x")
  case True
  define n where "n = nat \<lfloor>x\<rfloor>"
  define k where "k = floorlog 2 n"
  from True have n1: "0 < n" by (simp add: n_def)
  from floorlog_bounds[OF n1, of 2] have b: "2 ^ (k - 1) \<le> n" "n < 2 ^ k" by (simp_all add: k_def)
  from n1 have k1: "0 < k" unfolding k_def by (simp add: floorlog_def)
  have nx: "of_nat n \<le> x" "x < of_nat n + 1"
    using True by (simp_all add: n_def) linarith+
  have e: "ilog2 x = int k - 1" using True by (simp add: ilog2_def n_def k_def)
  have p: "(2::rat) powi (int k - 1) = 2 ^ (k - 1)"
    using k1 by (simp add: power_int_def nat_diff_distrib')
  have l1: "(2::rat) ^ (k - 1) \<le> of_nat n"
    using b(1) by (metis of_nat_le_iff of_nat_numeral of_nat_power)
  have h1: "(of_nat n :: rat) + 1 \<le> 2 ^ k"
  proof -
    from b(2) have "n + 1 \<le> 2 ^ k" by simp
    then have "(of_nat (n + 1) :: rat) \<le> of_nat (2 ^ k)" by (simp only: of_nat_le_iff)
    then show ?thesis by simp
  qed
  have "(2::rat) powi (ilog2 x) = 2 ^ (k - 1)" using e p by simp
  also have "\<dots> \<le> of_nat n" by (rule l1)
  also have "\<dots> \<le> x" by (rule nx(1))
  finally have lo: "2 powi (ilog2 x) \<le> x" .
  have "x < of_nat n + 1" by (rule nx(2))
  also have "\<dots> \<le> 2 ^ k" by (rule h1)
  also have "\<dots> = 2 powi (ilog2 x + 1)" using e by simp
  finally have "x < 2 powi (ilog2 x + 1)" .
  with lo show ?thesis by simp
next
  case False
  define c where "c = \<lceil>1 / x\<rceil>"
  define n where "n = nat (c - 1)"
  define k where "k = floorlog 2 n"
  from False assms have ix: "1 < 1 / x" by simp
  then have c2: "2 \<le> c" unfolding c_def by linarith
  then have n1: "0 < n" by (simp add: n_def)
  from floorlog_bounds[OF n1, of 2] have b: "2 ^ (k - 1) \<le> n" "n < 2 ^ k" by (simp_all add: k_def)
  from n1 have k1: "0 < k" unfolding k_def by (simp add: floorlog_def)
  have cx: "of_int c - 1 < 1 / x" "1 / x \<le> of_int c" unfolding c_def by linarith+
  have nc: "(of_nat n :: rat) = of_int c - 1" using c2 by (simp add: n_def)
  have e: "ilog2 x = - int k" using False by (simp add: ilog2_def c_def n_def k_def)
  have lo: "(2::rat) ^ (k - 1) < 1 / x"
  proof -
    have "(2::rat) ^ (k - 1) \<le> of_nat n" using b(1) by (metis of_nat_le_iff of_nat_numeral of_nat_power)
    with nc cx(1) show ?thesis by simp
  qed
  have hi: "1 / x \<le> (2::rat) ^ k"
  proof -
    from b(2) have "n + 1 \<le> 2 ^ k" by simp
    then have "(of_nat (n + 1) :: rat) \<le> of_nat (2 ^ k)" by (simp only: of_nat_le_iff)
    then have "(of_nat n :: rat) + 1 \<le> 2 ^ k" by simp
    moreover have "(of_int c :: rat) = of_nat n + 1" using nc by simp
    ultimately have "(of_int c :: rat) \<le> 2 ^ k" by (simp only:)
    with cx(2) show ?thesis by (rule order_trans)
  qed
  have p1: "(2::rat) powi (- int k) = 1 / 2 ^ k" by (simp add: power_int_def field_simps)
  have p2: "(2::rat) powi (- int k + 1) = 1 / 2 ^ (k - 1)"
    using k1 by (simp add: power_int_def field_simps nat_diff_distrib') 
  from hi assms have "1 / 2 ^ k \<le> x" by (simp add: field_simps)
  moreover from lo assms have "x < 1 / 2 ^ (k - 1)" by (simp add: field_simps)
  ultimately show ?thesis using e p1 p2 by simp
qed

lemma f32_round_near:
  assumes "x \<noteq> 0"
  shows "\<bar>f32_round x - x\<bar> \<le> 2 powi (max (ilog2 \<bar>x\<bar>) (- 126) - 23) / 2"
proof -
  define u :: rat where "u = 2 powi (max (ilog2 \<bar>x\<bar>) (- 126) - 23)"
  have upos: "0 < u" by (simp add: u_def)
  define m where "m = round_even (\<bar>x\<bar> / u)"
  have "\<bar>of_int m - \<bar>x\<bar> / u\<bar> \<le> 1 / 2" unfolding m_def by (rule round_even_near)
  then have "\<bar>of_int m - \<bar>x\<bar> / u\<bar> * u \<le> 1 / 2 * u" using upos by (simp add: mult_right_mono)
  moreover have "(of_int m - \<bar>x\<bar> / u) * u = of_int m * u - \<bar>x\<bar>"
    using upos by (simp add: field_simps)
  then have "\<bar>of_int m * u - \<bar>x\<bar>\<bar> = \<bar>of_int m - \<bar>x\<bar> / u\<bar> * \<bar>u\<bar>"
    by (simp only: abs_mult[symmetric])
  then have "\<bar>of_int m - \<bar>x\<bar> / u\<bar> * u = \<bar>of_int m * u - \<bar>x\<bar>\<bar>" using upos by simp
  ultimately have d: "\<bar>of_int m * u - \<bar>x\<bar>\<bar> \<le> u / 2" by simp
  have fx: "f32_round x = sgn x * (of_int m * u)"
    using assms by (simp add: f32_round_def Let_def u_def m_def)
  have "sgn x * \<bar>x\<bar> = x" by (rule sgn_mult_abs)
  with fx have "f32_round x - x = sgn x * (of_int m * u - \<bar>x\<bar>)"
    by (simp only: right_diff_distrib)
  then have "\<bar>f32_round x - x\<bar> = \<bar>sgn x\<bar> * \<bar>of_int m * u - \<bar>x\<bar>\<bar>"
    by (simp only: abs_mult)
  moreover have "\<bar>sgn x\<bar> = 1" using assms by (simp add: abs_sgn_eq)
  ultimately have "\<bar>f32_round x - x\<bar> = \<bar>of_int m * u - \<bar>x\<bar>\<bar>" by simp
  with d show ?thesis by (simp add: u_def)
qed

lemma f32_div_lowest: "f32_div (- 32768) 32767 = - (32769 / 32768)"
  by code_simp

lemma axis_value_range:
  "- (32769 / 32768) \<le> axis_value ev \<and> axis_value ev \<le> 1 \<and>
   (sint (e_value ev) \<noteq> - 32768 \<longrightarrow> - 1 \<le> axis_value ev)"
proof -
  define v where "v = sint (e_value ev)"
  have "- (2 ^ (LENGTH(16) - 1)) \<le> v" "v < 2 ^ (LENGTH(16) - 1)"
    unfolding v_def by (rule sint_ge, rule sint_lt)
  then have v: "- 32768 \<le> v" "v \<le> 32767" by simp_all
  show ?thesis
  proof (cases "v = - 32768")
    case True
    then show ?thesis using f32_div_lowest by (simp add: axis_value_def v_def[symmetric])
  next
    case False
    with v have "- 32767 \<le> v" by simp
    with v have "\<bar>(of_int v :: rat) / 32767\<bar> \<le> 1" by (simp add: abs_le_iff) 
    then have "\<bar>f32_round (of_int v / 32767)\<bar> \<le> 1" by (rule f32_round_unit)
    then show ?thesis using False
      by (simp add: axis_value_def f32_div_def v_def[symmetric] abs_le_iff)
  qed
qed


lemma handle_event_axes_ok:
  assumes "handle_event ev j = Inr j'" and "slot_axes_ok j"
  shows "slot_axes_ok j'"
proof -
  have upd: "\<And>as i. list_all (\<lambda>a. - (32769 / 32768) \<le> a \<and> a \<le> 1) as \<Longrightarrow>
      list_all (\<lambda>a. - (32769 / 32768) \<le> a \<and> a \<le> 1) (as[i := axis_value ev])"
    unfolding list_all_iff using set_update_subset_insert axis_value_range[of ev] by fastforce
  from assms show ?thesis
    by (auto simp: handle_event_def Let_def slot_axes_ok_def store_def upd
             split: if_splits sum.splits option.splits)
qed

lemma handle_event_axis:
  assumes "handle_event ev j = Inr j'" and "e_type ev AND NOT JS_EVENT_INIT = JS_EVENT_AXIS"
  shows "\<exists>as. axes j = Some as \<and> unat (e_number ev) < length as \<and>
           axes j' = Some (as[unat (e_number ev) := f32_div (of_int (sint (e_value ev))) 32767])"
  using assms
  by (auto simp: handle_event_def Let_def store_def axis_value_def
           split: if_splits sum.splits option.splits)

lemma openJoystickDevice_axes_ok:
  assumes "openJoystickDevice p w = Inr (r, w')" and "axes_ok (js w)"
  shows "axes_ok (js w')"
  unfolding axes_ok_def
proof (rule openJoystickDevice_invariant[OF assms(1)])
  show "list_all slot_axes_ok (js w)" using assms(2) by (simp add: axes_ok_def)
next
  fix j :: joystick
  assume "\<forall>as. axes j = Some as \<longrightarrow> as = replicate (length as) 0"
  then show "slot_axes_ok j"
    by (cases "axes j")
       (auto simp: slot_axes_ok_def list_all_iff dest!: arg_cong[where f=set] split: if_splits)
qed

text \<open>
  C6, as amended. For an axis event the poller stores, at the number of the event, the
  single-precision quotient of the event value by 32767. That quotient is at most 1 and
  at least \<open>-32769/32768\<close>; it is at least -1 for every event value but -32768. Every
  axis value of a present slot therefore stays between \<open>-32769/32768\<close> and 1 through
  \<open>pollJoystickEvents\<close>, and is so in the slot \<open>openJoystickDevice\<close> fills.
\<close>

theorem axis_value_normalized:
  "(handle_event ev j = Inr j' \<and> e_type ev AND NOT JS_EVENT_INIT = JS_EVENT_AXIS \<longrightarrow>
      (\<exists>as. axes j = Some as \<and> unat (e_number ev) < length as \<and>
         axes j' = Some (as[unat (e_number ev) := f32_div (of_int (sint (e_value ev))) 32767])))
   \<and> - (32769 / 32768) \<le> f32_div (of_int (sint (e_value ev))) 32767
   \<and> f32_div (of_int (sint (e_value ev))) 32767 \<le> 1
   \<and> (sint (e_value ev) \<noteq> - 32768 \<longrightarrow> - 1 \<le> f32_div (of_int (sint (e_value ev))) 32767)
   \<and> (axes_ok (js w) \<and> pollJoystickEvents jid w = Inr (r, w') \<longrightarrow> axes_ok (js w'))
   \<and> (axes_ok (js w) \<and> openJoystickDevice p w = Inr (r, w') \<longrightarrow> axes_ok (js w'))"
proof -
  have hot: "axes_ok (js v')" if "glfwPollJoystickEvents v = Inr v'" "axes_ok (js v)" for v v'
    by (rule glfwPollJoystickEvents_invariant[where Q="\<lambda>u. axes_ok (js u)", OF _ that(1)])
       (use that(2) in \<open>simp_all add: openJoystickDevice_axes_ok\<close>)
  have poll: "axes_ok (js w')" if "pollJoystickEvents jid w = Inr (r, w')" and ok: "axes_ok (js w)"
    using that(1)
  proof (cases rule: pollJoystickEvents_cases)
    case (absent w1)
    with hot ok show ?thesis by simp
  next
    case (polled w1)
    from hot[OF polled(1) ok] have "list_all slot_axes_ok (js w1)" by (simp add: axes_ok_def)
    have "list_all slot_axes_ok (js w')"
    proof (rule read_events_invariant[where P=slot_axes_ok])
      show "\<And>ev j j'. handle_event ev j = Inr j' \<Longrightarrow> slot_axes_ok j \<Longrightarrow> slot_axes_ok j'"
        by (rule handle_event_axes_ok)
      show "slot_axes_ok zero_joystick" by (simp add: slot_axes_ok_def zero_joystick_def)
      show "read_events jid w1 = Inr w'" by fact
      show "list_all slot_axes_ok (js w1)" by fact
    qed
    then show ?thesis by (simp add: axes_ok_def)
  qed
  from handle_event_axis[of ev j j'] axis_value_range[of ev] poll openJoystickDevice_axes_ok[of p w r w']
  show ?thesis unfolding axis_value_def by blast
qed

theorem axis_value_normalized_witness:
  "axes_ok (js example_move)
   \<and> pollJoystickEvents 0 example_move = Inr (True, example_moved)
   \<and> axes_ok (js example_moved)
   \<and> axes_ok (js example_world)
   \<and> openJoystickDevice ''/dev/input/js0'' example_world = Inr (True, example_opened)
   \<and> axes_ok (js example_opened)
   \<and> handle_event (axis_event 0 32767) pad_slot = Inr (pad_slot\<lparr>axes := Some [1, 0]\<rparr>)
   \<and> (\<exists>as. axes pad_slot = Some as \<and>
         axes (pad_slot\<lparr>axes := Some [1, 0]\<rparr>) =
           Some (as[0 := f32_div (of_int (sint (e_value (axis_event 0 32767)))) 32767]))
   \<and> sint (e_value (axis_event 0 32767)) \<noteq> - 32768
   \<and> - 1 \<le> f32_div (of_int (sint (e_value (axis_event 0 32767)))) 32767
   \<and> f32_div (of_int (sint (e_value (axis_event 0 32767)))) 32767 \<le> 1"
proof -
  have a: "axes_ok (js example_move)" by code_simp
  have a0: "axes_ok (js example_world)" by code_simp
  have h: "pollJoystickEvents 0 example_move = Inr (True, example_moved)" by code_simp
  have o: "openJoystickDevice ''/dev/input/js0'' example_world = Inr (True, example_opened)"
    by code_simp
  have e: "handle_event (axis_event 0 32767) pad_slot = Inr (pad_slot\<lparr>axes := Some [1, 0]\<rparr>)"
    by code_simp
  have t: "e_type (axis_event 0 32767) AND NOT JS_EVENT_INIT = JS_EVENT_AXIS" by code_simp
  have n: "unat (e_number (axis_event 0 32767)) = 0" by code_simp
  have s: "sint (e_value (axis_event 0 32767)) \<noteq> - 32768" by code_simp
  note T = axis_value_normalized[where w=example_move and jid=0 and r=True and w'=example_moved
      and ev="axis_event 0 32767" and j=pad_slot and j'="pad_slot\<lparr>axes := Some [1, 0]\<rparr>"]
  from T a h have 1: "axes_ok (js example_moved)" by blast
  from T s have 2: "- 1 \<le> f32_div (of_int (sint (e_value (axis_event 0 32767)))) 32767"
    by blast
  from T have 3: "f32_div (of_int (sint (e_value (axis_event 0 32767)))) 32767 \<le> 1" by blast
  from T e t have "\<exists>as. axes pad_slot = Some as \<and>
         unat (e_number (axis_event 0 32767)) < length as \<and>
         axes (pad_slot\<lparr>axes := Some [1, 0]\<rparr>) =
           Some (as[unat (e_number (axis_event 0 32767)) :=
                      f32_div (of_int (sint (e_value (axis_event 0 32767)))) 32767])"
    by blast
  with n have 4: "\<exists>as. axes pad_slot = Some as \<and>
         axes (pad_slot\<lparr>axes := Some [1, 0]\<rparr>) =
           Some (as[0 := f32_div (of_int (sint (e_value (axis_event 0 32767)))) 32767])"
    by auto
  from axis_value_normalized[where w=example_world and p="''/dev/input/js0''" and r=True
      and w'=example_opened] a0 o
  have 5: "axes_ok (js example_opened)" by blast
  from a h 1 a0 o 5 e 4 s 2 3 show ?thesis by blast
qed

text \<open>
  C6 as the claim states it fails: the axis event with the lowest value, -32768, leaves
  the value \<open>-32769/32768\<close> in the axis array, which is below -1.
\<close>

theorem axis_value_normalized_counterexample:
  "pollJoystickEvents 0 example_move = Inr (True, example_moved)
   \<and> axes (js example_moved ! 0) =
       Some [0, f32_div (of_int (sint (e_value (axis_event 1 (- 32768))))) 32767]
   \<and> \<not> (- 1 \<le> f32_div (of_int (sint (e_value (axis_event 1 (- 32768))))) 32767
        \<and> f32_div (of_int (sint (e_value (axis_event 1 (- 32768))))) 32767 \<le> 1)"
  by code_simp


subsection \<open>Distinct paths\<close>

lemma distinct_paths_fill:
  assumes "k < length xs" and "\<not> present (xs ! k)" and "distinct_paths xs"
    and "\<forall>j' \<in> set xs. present j' \<longrightarrow> path j' \<noteq> path j"
  shows "distinct_paths (xs[k := j])"
proof -
  let ?a = "take k xs" and ?b = "drop (Suc k) xs"
  have xs: "xs = ?a @ xs ! k # ?b" using assms(1) by (rule id_take_nth_drop)
  have up: "xs[k := j] = ?a @ j # ?b" using assms(1) by (rule upd_conv_take_nth_drop)
  have "filter present xs = filter present ?a @ filter present ?b"
    by (subst xs) (simp add: assms(2))
  with assms(3) have d: "distinct (map path (filter present ?a) @ map path (filter present ?b))"
    by (simp add: distinct_paths_def)
  have "\<forall>j' \<in> set ?a \<union> set ?b. present j' \<longrightarrow> path j' \<noteq> path j"
    using assms(4) by (auto dest: in_set_takeD in_set_dropD)
  with d show ?thesis unfolding distinct_paths_def up by (cases "present j") auto
qed

lemma distinct_paths_clear:
  assumes "distinct_paths xs" and "\<not> present j"
  shows "distinct_paths (xs[k := j])"
proof (cases "k < length xs")
  case True
  let ?a = "take k xs" and ?b = "drop (Suc k) xs"
  have xs: "xs = ?a @ xs ! k # ?b" using True by (rule id_take_nth_drop)
  have up: "xs[k := j] = ?a @ j # ?b" using True by (rule upd_conv_take_nth_drop)
  have "distinct (map path (filter present (?a @ xs ! k # ?b)))"
    using assms(1) xs by (simp add: distinct_paths_def)
  then have "distinct (map path (filter present ?a) @ map path (filter present ?b))"
    by (cases "present (xs ! k)") auto
  then show ?thesis unfolding distinct_paths_def up using assms(2) by simp
next
  case False
  with assms(1) show ?thesis by (simp add: list_update_beyond)
qed

lemma distinct_paths_same:
  assumes "length ys = length xs"
    and "\<forall>i < length xs. present (ys ! i) = present (xs ! i) \<and> path (ys ! i) = path (xs ! i)"
  shows "distinct_paths ys = distinct_paths xs"
proof -
  have e: "map (\<lambda>j. (present j, path j)) ys = map (\<lambda>j. (present j, path j)) xs"
    using assms by (intro nth_equalityI) simp_all
  have h: "map path (filter present zs) =
      map snd (filter fst (map (\<lambda>j. (present j, path j)) zs))" for zs
    by (induction zs) simp_all
  show ?thesis by (simp only: distinct_paths_def h e)
qed

lemma distinct_paths_mset:
  assumes "mset ys = mset xs"
  shows "distinct_paths ys = distinct_paths xs"
proof -
  have "mset (map path (filter present ys)) = mset (map path (filter present xs))"
    using assms by (metis mset_filter mset_map)
  then show ?thesis unfolding distinct_paths_def by (rule mset_eq_imp_distinct_iff)
qed

lemma openJoystickDevice_distinct_paths:
  assumes "openJoystickDevice p w = Inr (r, w')" and "distinct_paths (js w)"
  shows "distinct_paths (js w')"
  using assms(1)
proof (cases rule: openJoystickDevice_cases)
  case (opened d n)
  from opened(3) have nf: "\<not> present (js w ! first_free (js w))" by (rule first_free_free)
  from opened(2) have "\<forall>j \<in> set (js w). present j \<longrightarrow> path j \<noteq> Some p"
    using path_in_use_False by blast
  with opened(3,7) nf assms(2) show ?thesis by (simp add: distinct_paths_fill)
qed (use assms(2) in simp_all)

lemma read_events_distinct_paths:
  assumes "read_events jid w = Inr w'" and "jid < length (js w)" and "distinct_paths (js w)"
  shows "distinct_paths (js w')"
proof -
  note res = read_events_result[OF assms(1,2) refl]
  show ?thesis
  proof (cases "poll_errno (fd (js w ! jid)) w = ENODEV")
    case True
    have "js w' ! i = (js w)[jid := zero_joystick] ! i" if "i < length (js w)" for i
      using that res True by (cases "i = jid") simp_all
    with res have "js w' = (js w)[jid := zero_joystick]"
      by (intro nth_equalityI) simp_all
    with assms(3) show ?thesis by (simp add: distinct_paths_clear zero_joystick_def)
  next
    case False
    have "present (js w' ! i) = present (js w ! i) \<and> path (js w' ! i) = path (js w ! i)" for i
      using res False by (cases "i = jid") simp_all
    moreover have "length (js w') = length (js w)" using res by simp
    ultimately have "distinct_paths (js w') = distinct_paths (js w)"
      by (intro distinct_paths_same) simp_all
    with assms(3) show ?thesis by simp
  qed
qed


lemma glfwInitJoysticksLinux_mset:
  assumes "glfwInitJoysticksLinux w = Inr (r, w')"
    and step: "\<And>p w r w'. openJoystickDevice p w = Inr (r, w') \<Longrightarrow> Q (js w) \<Longrightarrow> Q (js w')"
    and perm: "\<And>xs ys. mset ys = mset xs \<Longrightarrow> Q xs \<Longrightarrow> Q ys"
    and "Q (js w)"
  shows "Q (js w')"
  using assms(1)
proof (cases rule: glfwInitJoysticksLinux_cases)
  case (scanned entries w3 cnt w4 sorted_js)
  have "Q (js w4)"
  proof (rule readdir_loop_invariant[where Q="\<lambda>v. Q (js v)"])
    show "\<And>p w r w'. openJoystickDevice p w = Inr (r, w') \<Longrightarrow> Q (js w) \<Longrightarrow> Q (js w')"
      by (rule step)
    show "readdir_loop entries 0 w3 = Inr (cnt, w4)" by fact
    show "Q (js w3)" using scanned(5) assms(4) by simp
  qed
  moreover have "mset (sorted_js @ drop cnt (js w4)) = mset (take cnt (js w4) @ drop cnt (js w4))"
    using glfw_qsort_mset[OF scanned(11)] by (simp only: mset_append)
  then have "mset (js w') = mset (js w4)" using scanned(12) by (simp only: append_take_drop_id) simp
  ultimately show ?thesis by (rule perm[rotated])
qed (use assms(4) in simp_all)

text \<open>
  C9. When the path is held by a present slot, \<open>openJoystickDevice\<close> returns false and
  leaves the whole world as it was: no \<open>open\<close>, no slot written, nothing notified. The
  paths of the present slots are pairwise distinct in a table of zeroed slots, and if
  they are pairwise distinct they are so again after \<open>openJoystickDevice\<close>,
  \<open>_glfwPollJoystickEvents\<close>, \<open>pollJoystickEvents\<close> and \<open>_glfwInitJoysticksLinux\<close>.
\<close>

theorem present_paths_distinct:
  assumes "distinct_paths (js w)"
  shows "distinct_paths (replicate k zero_joystick)
       \<and> (openJoystickDevice p w = Inr (r, w') \<and> (\<exists>j \<in> set (js w). present j \<and> path j = Some p)
            \<longrightarrow> \<not> r \<and> w' = w)
       \<and> (openJoystickDevice p w = Inr (r, w') \<longrightarrow> distinct_paths (js w'))
       \<and> (glfwPollJoystickEvents w = Inr w' \<longrightarrow> distinct_paths (js w'))
       \<and> (pollJoystickEvents jid w = Inr (r, w') \<longrightarrow> distinct_paths (js w'))
       \<and> (glfwInitJoysticksLinux w = Inr (r, w') \<longrightarrow> distinct_paths (js w'))"
proof -
  have zero: "distinct_paths (replicate k zero_joystick)"
    by (simp add: distinct_paths_def zero_joystick_def)
  have held: "\<not> r \<and> w' = w"
    if o: "openJoystickDevice p w = Inr (r, w')" and "\<exists>j \<in> set (js w). present j \<and> path j = Some p"
    using o
  proof (cases rule: openJoystickDevice_cases)
    case refused
    then show ?thesis by simp
  next
    case failed
    with that(2) path_in_use_False[OF failed(2)] show ?thesis by blast
  next
    case (old d n)
    with that(2) path_in_use_False[OF old(2)] show ?thesis by blast
  next
    case (opened d n)
    with that(2) path_in_use_False[OF opened(2)] show ?thesis by blast
  qed
  have hot: "distinct_paths (js v')"
    if "glfwPollJoystickEvents v = Inr v'" "distinct_paths (js v)" for v v'
    by (rule glfwPollJoystickEvents_invariant[where Q="\<lambda>u. distinct_paths (js u)", OF _ that(1)])
       (use that(2) in \<open>simp_all add: openJoystickDevice_distinct_paths\<close>)
  have poll: "distinct_paths (js w')" if "pollJoystickEvents jid w = Inr (r, w')"
    using that
  proof (cases rule: pollJoystickEvents_cases)
    case (absent w1)
    with hot assms show ?thesis by simp
  next
    case (polled w1)
    from polled(4,2) hot[OF polled(1) assms] show ?thesis by (rule read_events_distinct_paths)
  qed
  have init: "distinct_paths (js w')" if "glfwInitJoysticksLinux w = Inr (r, w')"
  proof (rule glfwInitJoysticksLinux_mset[where Q=distinct_paths, OF that])
    show "\<And>p w r w'. openJoystickDevice p w = Inr (r, w') \<Longrightarrow>
            distinct_paths (js w) \<Longrightarrow> distinct_paths (js w')"
      by (rule openJoystickDevice_distinct_paths)
    show "\<And>xs ys. mset ys = mset xs \<Longrightarrow> distinct_paths xs \<Longrightarrow> distinct_paths ys"
      using distinct_paths_mset by blast
    show "distinct_paths (js w)" by fact
  qed
  from zero held openJoystickDevice_distinct_paths[of p w r w'] assms hot[of w w'] poll init
  show ?thesis by blast
qed

theorem present_paths_distinct_witness:
  "distinct_paths (js example_opened)
   \<and> openJoystickDevice ''/dev/input/js0'' example_opened = Inr (False, example_opened)
   \<and> pad_slot \<in> set (js example_opened) \<and> present pad_slot
   \<and> path pad_slot = Some ''/dev/input/js0''
   \<and> openJoystickDevice ''/dev/input/js0'' example_world = Inr (True, example_opened)
   \<and> distinct_paths (js example_world)
   \<and> glfwPollJoystickEvents example_hotplug = Inr example_hotplugged
   \<and> distinct_paths (js example_hotplugged)
   \<and> pollJoystickEvents 0 example_move = Inr (True, example_moved)
   \<and> distinct_paths (js example_moved)
   \<and> glfwInitJoysticksLinux example_boot = Inr (True, example_booted)
   \<and> distinct_paths (js example_booted)"
proof -
  have a: "distinct_paths (js example_opened)" by code_simp
  have a0: "distinct_paths (js example_world)" by code_simp
  have a1: "distinct_paths (js example_hotplug)" by code_simp
  have a2: "distinct_paths (js example_move)" by code_simp
  have a3: "distinct_paths (js example_boot)" by code_simp
  have h: "openJoystickDevice ''/dev/input/js0'' example_opened = Inr (False, example_opened)"
    by code_simp
  have o: "openJoystickDevice ''/dev/input/js0'' example_world = Inr (True, example_opened)"
    by code_simp
  have g: "glfwPollJoystickEvents example_hotplug = Inr example_hotplugged" by code_simp
  have l: "pollJoystickEvents 0 example_move = Inr (True, example_moved)" by code_simp
  have i: "glfwInitJoysticksLinux example_boot = Inr (True, example_booted)" by code_simp
  have m: "pad_slot \<in> set (js example_opened)" by code_simp
  have p: "present pad_slot" by code_simp
  have q: "path pad_slot = Some ''/dev/input/js0''" by code_simp
  from m p q have e: "\<exists>j \<in> set (js example_opened). present j \<and> path j = Some ''/dev/input/js0''"
    by blast
  from present_paths_distinct[OF a, where p="''/dev/input/js0''" and r=False and w'=example_opened]
    h e
  have "\<not> False \<and> example_opened = example_opened" by blast
  moreover
  from present_paths_distinct[OF a0, where p="''/dev/input/js0''" and r=True and w'=example_opened] o
  have "distinct_paths (js example_opened)" by blast
  moreover
  from present_paths_distinct[OF a1, where w'=example_hotplugged] g
  have 1: "distinct_paths (js example_hotplugged)" by blast
  moreover
  from present_paths_distinct[OF a2, where jid=0 and r=True and w'=example_moved] l
  have 2: "distinct_paths (js example_moved)" by blast
  moreover
  from present_paths_distinct[OF a3, where r=True and w'=example_booted] i
  have 3: "distinct_paths (js example_booted)" by blast
  ultimately show ?thesis using a a0 h o m p q g l i by blast
qed


subsection \<open>What initialisation returns\<close>

lemma openJoystickDevice_errors:
  "openJoystickDevice p w = Inr (r, w') \<Longrightarrow> errors w' = errors w \<and> watch w' = watch w"
  by (erule openJoystickDevice_cases) simp_all

lemma add_watch_failed:
  "ret_inotify_add_watch w = - 1 \<Longrightarrow>
   watch (add_watch w) = - 1 \<and>
   (GLFW_PLATFORM_ERROR, ''Linux: Failed to watch for joystick connections in %s: %s'')
     \<in> set (errors (add_watch w))"
  by (simp add: add_watch_def Let_def glfwInputError_def)

text \<open>
  C10. \<open>_glfwInitJoysticksLinux\<close> returns false exactly when \<open>inotify_init1\<close> returned
  -1 or \<open>regcomp\<close> returned a value other than 0. When \<open>inotify_add_watch\<close> returned -1
  (after \<open>inotify_init1\<close> succeeded) the error is reported, and the function returns true
  unless \<open>regcomp\<close> fails, with \<open>watch\<close> left at -1. When the directory cannot be opened
  (after the two calls that can make it fail succeeded) the error is reported, the
  function returns true and the table is as it was.
\<close>

theorem glfwInitJoysticksLinux_returns:
  assumes "glfwInitJoysticksLinux w = Inr (r, w')"
  shows "(\<not> r \<longleftrightarrow> ret_inotify_init1 w = - 1 \<or> ret_regcomp w \<noteq> 0)
       \<and> (ret_inotify_init1 w \<noteq> - 1 \<and> ret_inotify_add_watch w = - 1 \<longrightarrow>
            (GLFW_PLATFORM_ERROR, ''Linux: Failed to watch for joystick connections in %s: %s'')
              \<in> set (errors w') \<and> watch w' = - 1 \<and> (r \<longleftrightarrow> ret_regcomp w = 0))
       \<and> (ret_inotify_init1 w \<noteq> - 1 \<and> ret_regcomp w = 0 \<and> dev_input w = None \<longrightarrow>
            (GLFW_PLATFORM_ERROR, ''Linux: Failed to open joystick device directory %s: %s'')
              \<in> set (errors w') \<and> r \<and> js w' = js w \<and> changes w' = changes w)"
  using assms
proof (cases rule: glfwInitJoysticksLinux_cases)
  case no_inotify
  then show ?thesis by simp
next
  case no_regex
  let ?w1 = "w\<lparr>inotify := ret_inotify_init1 w\<rparr>"
  have "ret_inotify_add_watch w = - 1 \<longrightarrow>
        (GLFW_PLATFORM_ERROR, ''Linux: Failed to watch for joystick connections in %s: %s'')
          \<in> set (errors w') \<and> watch w' = - 1"
    using add_watch_failed[of ?w1] no_regex(7) by (simp add: glfwInputError_def)
  with no_regex(1-3) show ?thesis by simp
next
  case no_directory
  let ?w1 = "w\<lparr>inotify := ret_inotify_init1 w\<rparr>"
  have "ret_inotify_add_watch w = - 1 \<longrightarrow>
        (GLFW_PLATFORM_ERROR, ''Linux: Failed to watch for joystick connections in %s: %s'')
          \<in> set (errors w') \<and> watch w' = - 1"
    using add_watch_failed[of ?w1] no_directory(9) by (simp add: glfwInputError_def)
  with no_directory(1-8) show ?thesis by simp
next
  case (scanned entries w3 cnt w4 sorted_js)
  let ?w1 = "w\<lparr>inotify := ret_inotify_init1 w\<rparr>"
  have "errors w4 = errors w3 \<and> watch w4 = watch w3"
  proof (rule readdir_loop_invariant[where Q="\<lambda>v. errors v = errors w3 \<and> watch v = watch w3"])
    show "\<And>p w r w'. openJoystickDevice p w = Inr (r, w') \<Longrightarrow>
            errors w = errors w3 \<and> watch w = watch w3 \<Longrightarrow>
            errors w' = errors w3 \<and> watch w' = watch w3"
      using openJoystickDevice_errors by simp
    show "readdir_loop entries 0 w3 = Inr (cnt, w4)" by fact
    show "errors w3 = errors w3 \<and> watch w3 = watch w3" by simp
  qed
  with scanned(12) have "errors w' = errors w3" "watch w' = watch w3" by simp_all
  then have "ret_inotify_add_watch w = - 1 \<longrightarrow>
        (GLFW_PLATFORM_ERROR, ''Linux: Failed to watch for joystick connections in %s: %s'')
          \<in> set (errors w') \<and> watch w' = - 1"
    using add_watch_failed[of ?w1] scanned(13) by simp
  with scanned(1-4) show ?thesis by simp
qed

theorem glfwInitJoysticksLinux_returns_witness:
  "glfwInitJoysticksLinux example_nodir = Inr (True, example_nodir_booted)
   \<and> ret_inotify_init1 example_nodir \<noteq> - 1 \<and> ret_inotify_add_watch example_nodir = - 1
   \<and> ret_regcomp example_nodir = 0 \<and> dev_input example_nodir = None
   \<and> (GLFW_PLATFORM_ERROR, ''Linux: Failed to watch for joystick connections in %s: %s'')
        \<in> set (errors example_nodir_booted)
   \<and> (GLFW_PLATFORM_ERROR, ''Linux: Failed to open joystick device directory %s: %s'')
        \<in> set (errors example_nodir_booted)
   \<and> watch example_nodir_booted = - 1
   \<and> js example_nodir_booted = js example_nodir
   \<and> (\<exists>w'. glfwInitJoysticksLinux (example_boot\<lparr>ret_inotify_init1 := - 1\<rparr>) = Inr (False, w'))
   \<and> (\<exists>w'. glfwInitJoysticksLinux (example_boot\<lparr>ret_regcomp := 1\<rparr>) = Inr (False, w') \<and>
         watch w' = - 1)"
proof -
  have h: "glfwInitJoysticksLinux example_nodir = Inr (True, example_nodir_booted)" by code_simp
  have a: "ret_inotify_init1 example_nodir \<noteq> - 1" by code_simp
  have b: "ret_inotify_add_watch example_nodir = - 1" by code_simp
  have c: "ret_regcomp example_nodir = 0" by code_simp
  have d: "dev_input example_nodir = None" by code_simp
  have h1: "glfwInitJoysticksLinux (example_boot\<lparr>ret_inotify_init1 := - 1\<rparr>) =
      Inr (False, example_boot\<lparr>inotify := - 1, ret_inotify_init1 := - 1,
              errors := [(GLFW_PLATFORM_ERROR, ''Linux: Failed to initialize inotify: %s'')]\<rparr>)"
    by code_simp
  have h2: "glfwInitJoysticksLinux (example_boot\<lparr>ret_regcomp := 1\<rparr>) =
      Inr (False, example_boot\<lparr>inotify := 3, watch := - 1, ret_regcomp := 1,
              errors := [(GLFW_PLATFORM_ERROR,
                          ''Linux: Failed to watch for joystick connections in %s: %s''),
                         (GLFW_PLATFORM_ERROR, ''Linux: Failed to compile regex'')]\<rparr>)"
    by code_simp
  have b1: "ret_inotify_init1 (example_boot\<lparr>ret_inotify_init1 := - 1\<rparr>) = - 1" by simp
  have b2: "ret_inotify_init1 (example_boot\<lparr>ret_regcomp := 1\<rparr>) \<noteq> - 1"
    "ret_inotify_add_watch (example_boot\<lparr>ret_regcomp := 1\<rparr>) = - 1"
    "ret_regcomp (example_boot\<lparr>ret_regcomp := 1\<rparr>) \<noteq> 0"
    by (simp_all add: example_boot_def)
  from glfwInitJoysticksLinux_returns[OF h1] b1 h1
  have 1: "\<exists>w'. glfwInitJoysticksLinux (example_boot\<lparr>ret_inotify_init1 := - 1\<rparr>) =
             Inr (False, w')"
    by auto
  from glfwInitJoysticksLinux_returns[OF h2] b2 h2
  have 2: "\<exists>w'. glfwInitJoysticksLinux (example_boot\<lparr>ret_regcomp := 1\<rparr>) = Inr (False, w') \<and>
             watch w' = - 1"
    by blast
  from glfwInitJoysticksLinux_returns[OF h] a b c d h 1 2 show ?thesis by blast
qed


subsection \<open>Which files discovery opens\<close>

lemma readdir_loop_open_each:
  "readdir_loop ns c w = open_each (map device_path (joystick_names ns)) c w"
  unfolding joystick_names_def
proof (induction ns arbitrary: c w)
  case Nil
  show ?case by simp
next
  case (Cons n ns)
  show ?case
  proof (cases "regexec_js n")
    case False
    with Cons show ?thesis by simp
  next
    case True
    show ?thesis
    proof (cases "openJoystickDevice (device_path n) w")
      case (Inl f)
      with True show ?thesis by simp
    next
      case (Inr rw)
      obtain r w1 where "rw = (r, w1)" by (cases rw)
      with Inr True Cons show ?thesis by simp
    qed
  qed
qed

lemma drop_count_open_each:
  "drop_count (open_each ps c w) = drop_count (open_each ps c' w)"
proof (induction ps arbitrary: c c' w)
  case Nil
  show ?case by simp
next
  case (Cons p ps)
  show ?case
  proof (cases "openJoystickDevice p w")
    case (Inl f)
    then show ?thesis by simp
  next
    case (Inr rw)
    obtain r w1 where "rw = (r, w1)" by (cases rw)
    with Inr Cons[of "if r then c + 1 else c" w1 "if r then c' + 1 else c'"] show ?thesis by simp
  qed
qed

lemma hotplug_events_open_each:
  "hotplug_events ns w = drop_count (open_each (map device_path (joystick_names ns)) 0 w)"
  unfolding joystick_names_def
proof (induction ns arbitrary: w)
  case Nil
  show ?case by simp
next
  case (Cons n ns)
  show ?case
  proof (cases "regexec_js n")
    case False
    with Cons show ?thesis by simp
  next
    case True
    show ?thesis
    proof (cases "openJoystickDevice (device_path n) w")
      case (Inl f)
      with True show ?thesis by simp
    next
      case (Inr rw)
      obtain r w1 where rw: "rw = (r, w1)" by (cases rw)
      have "drop_count (open_each (map device_path (filter regexec_js ns)) (if r then 0 + 1 else 0) w1)
            = drop_count (open_each (map device_path (filter regexec_js ns)) 0 w1)"
        by (rule drop_count_open_each)
      with Inr True Cons rw show ?thesis by simp
    qed
  qed
qed

lemma openJoystickDevice_syscalls:
  assumes "openJoystickDevice p w = Inr (r, w')"
  shows "\<exists>extra. syscalls w' = syscalls w @ extra \<and> (\<forall>q n. Open q n \<in> set extra \<longrightarrow> q = p)"
  using assms
proof (cases rule: openJoystickDevice_cases)
  case refused
  then show ?thesis by simp
next
  case failed
  then show ?thesis by (intro exI[of _ "[Open p (- 1)]"]) simp
next
  case (old d n)
  then show ?thesis by (intro exI[of _ "[Open p n, Close n]"]) simp
next
  case (opened d n)
  then show ?thesis by (intro exI[of _ "[Open p n]"]) simp
qed

lemma open_each_syscalls:
  "open_each ps c w = Inr (c', w') \<Longrightarrow>
   \<exists>extra. syscalls w' = syscalls w @ extra \<and> (\<forall>q n. Open q n \<in> set extra \<longrightarrow> q \<in> set ps)"
proof (induction ps arbitrary: c w)
  case Nil
  then show ?case by simp
next
  case (Cons p ps)
  from Cons.prems obtain r w1 where
    o: "openJoystickDevice p w = Inr (r, w1)"
    and rest: "open_each ps (if r then c + 1 else c) w1 = Inr (c', w')"
    by (auto split: sum.splits)
  from openJoystickDevice_syscalls[OF o] obtain e1 where
    e1: "syscalls w1 = syscalls w @ e1" "\<forall>q n. Open q n \<in> set e1 \<longrightarrow> q = p" by blast
  from Cons.IH[OF rest] obtain e2 where
    e2: "syscalls w' = syscalls w1 @ e2" "\<forall>q n. Open q n \<in> set e2 \<longrightarrow> q \<in> set ps" by blast
  from e1 e2 show ?case by (intro exI[of _ "e1 @ e2"]) auto
qed

lemma regexec_js_iff:
  "regexec_js n \<longleftrightarrow> (\<exists>ds. n = ''js'' @ ds \<and> ds \<noteq> [] \<and> list_all is_digit ds)"
proof (cases n)
  case Nil
  then show ?thesis by simp
next
  case (Cons a n')
  then show ?thesis by (cases n') auto
qed

lemma device_path_matches:
  assumes "regexec_js n"
  shows "\<exists>m. device_path n = ''/dev/input/'' @ m \<and> regexec_js m \<and> m = take 8 n"
proof -
  from assms obtain ds where n: "n = ''js'' @ ds" and ds: "ds \<noteq> []" "list_all is_digit ds"
    using regexec_js_iff by blast
  have "device_path n = ''/dev/input/'' @ take 8 n" by (simp add: device_path_def)
  moreover have "take 8 n = ''js'' @ take 6 ds" using n by simp
  moreover have "take 6 ds \<noteq> []" using ds(1) by (cases ds) simp_all
  moreover have "list_all is_digit (take 6 ds)"
    using ds(2) by (auto simp: list_all_iff dest: in_set_takeD)
  ultimately show ?thesis using regexec_js_iff by (intro exI[of _ "take 8 n"]) blast
qed


lemma glfwInitJoysticksLinux_opens:
  assumes "glfwInitJoysticksLinux w = Inr (r, w')"
  shows "\<exists>extra. syscalls w' = syscalls w @ extra \<and>
           (\<forall>q n. Open q n \<in> set extra \<longrightarrow>
              (\<exists>entries. dev_input w = Some entries \<and>
                 q \<in> set (map device_path (joystick_names entries))))"
  using assms
proof (cases rule: glfwInitJoysticksLinux_cases)
  case (scanned entries w3 cnt w4 sorted_js)
  from scanned(10) have "open_each (map device_path (joystick_names entries)) 0 w3 = Inr (cnt, w4)"
    by (simp add: readdir_loop_open_each)
  from open_each_syscalls[OF this] obtain extra where
    "syscalls w4 = syscalls w3 @ extra"
    "\<forall>q n. Open q n \<in> set extra \<longrightarrow> q \<in> set (map device_path (joystick_names entries))"
    by blast
  with scanned(3,7,12) show ?thesis by (intro exI[of _ extra]) simp
qed simp_all

text \<open>
  C8. The loop over the directory in \<open>_glfwInitJoysticksLinux\<close> does what calling
  \<open>openJoystickDevice\<close> on the paths of the matching entries, in their order, does: an
  entry that does not match has no effect. \<open>_glfwPollJoystickEvents\<close> does what calling
  \<open>openJoystickDevice\<close> on the paths of the matching event names, in their order, does.
  Every \<open>open\<close> made by either function is on the path built from a name that matches
  the pattern, and that path is \<open>/dev/input/\<close> followed by a name that matches the
  pattern (the first 8 characters of the name, which is all the path buffer takes).
\<close>

theorem discovery_opens_matching_names:
  "readdir_loop ns c w = open_each (map device_path (joystick_names ns)) c w
   \<and> (\<not> regexec_js n \<longrightarrow> readdir_loop (n # ns) c w = readdir_loop ns c w)
   \<and> glfwPollJoystickEvents w =
       drop_count (open_each (map device_path (joystick_names (inotify_events w))) 0
                     (w\<lparr>inotify_events := []\<rparr>))
   \<and> (glfwInitJoysticksLinux w = Inr (r, w') \<longrightarrow>
        (\<exists>extra. syscalls w' = syscalls w @ extra \<and>
           (\<forall>q k. Open q k \<in> set extra \<longrightarrow>
              (\<exists>entries m. dev_input w = Some entries \<and> m \<in> set entries \<and> regexec_js m \<and>
                 q = device_path m))))
   \<and> (glfwPollJoystickEvents w = Inr w' \<longrightarrow>
        (\<exists>extra. syscalls w' = syscalls w @ extra \<and>
           (\<forall>q k. Open q k \<in> set extra \<longrightarrow>
              (\<exists>m. m \<in> set (inotify_events w) \<and> regexec_js m \<and> q = device_path m))))
   \<and> (regexec_js n \<longrightarrow>
        (\<exists>m. device_path n = ''/dev/input/'' @ m \<and> regexec_js m \<and> m = take 8 n))"
proof -
  have a: "readdir_loop ns c w = open_each (map device_path (joystick_names ns)) c w"
    by (rule readdir_loop_open_each)
  have b: "\<not> regexec_js n \<longrightarrow> readdir_loop (n # ns) c w = readdir_loop ns c w" by simp
  have c: "glfwPollJoystickEvents w =
       drop_count (open_each (map device_path (joystick_names (inotify_events w))) 0
                     (w\<lparr>inotify_events := []\<rparr>))"
    by (simp add: glfwPollJoystickEvents_def hotplug_events_open_each)
  have d: "\<exists>extra. syscalls w' = syscalls w @ extra \<and>
           (\<forall>q k. Open q k \<in> set extra \<longrightarrow>
              (\<exists>entries m. dev_input w = Some entries \<and> m \<in> set entries \<and> regexec_js m \<and>
                 q = device_path m))"
    if "glfwInitJoysticksLinux w = Inr (r, w')"
  proof -
    from glfwInitJoysticksLinux_opens[OF that] obtain extra where
      e: "syscalls w' = syscalls w @ extra"
      "\<forall>q n. Open q n \<in> set extra \<longrightarrow>
              (\<exists>entries. dev_input w = Some entries \<and>
                 q \<in> set (map device_path (joystick_names entries)))" by blast
    have "\<exists>entries m. dev_input w = Some entries \<and> m \<in> set entries \<and> regexec_js m \<and>
                 q = device_path m" if "Open q k \<in> set extra" for q k
      using e(2) that by (fastforce simp: joystick_names_def)
    with e(1) show ?thesis by blast
  qed
  have e: "\<exists>extra. syscalls w' = syscalls w @ extra \<and>
           (\<forall>q k. Open q k \<in> set extra \<longrightarrow>
              (\<exists>m. m \<in> set (inotify_events w) \<and> regexec_js m \<and> q = device_path m))"
    if "glfwPollJoystickEvents w = Inr w'"
  proof -
    let ?ps = "map device_path (joystick_names (inotify_events w))"
    from that c obtain cnt where "open_each ?ps 0 (w\<lparr>inotify_events := []\<rparr>) = Inr (cnt, w')"
      by (cases "open_each ?ps 0 (w\<lparr>inotify_events := []\<rparr>)") auto
    from open_each_syscalls[OF this] obtain extra where
      x: "syscalls w' = syscalls w @ extra" "\<forall>q n. Open q n \<in> set extra \<longrightarrow> q \<in> set ?ps"
      by auto
    have "\<exists>m. m \<in> set (inotify_events w) \<and> regexec_js m \<and> q = device_path m"
      if "Open q k \<in> set extra" for q k
      using x(2) that by (fastforce simp: joystick_names_def)
    with x(1) show ?thesis by blast
  qed
  from a b c d e device_path_matches[of n] show ?thesis by blast
qed

theorem discovery_opens_matching_names_witness:
  "glfwInitJoysticksLinux example_boot = Inr (True, example_booted)
   \<and> syscalls example_booted = [Open ''/dev/input/js1'' 0, Open ''/dev/input/js0'' 1]
   \<and> joystick_names [''.'', ''..'', ''js1'', ''event0'', ''js0'', ''jsx''] = [''js1'', ''js0'']
   \<and> (\<exists>extra. syscalls example_booted = syscalls example_boot @ extra \<and>
         (\<forall>q k. Open q k \<in> set extra \<longrightarrow>
            (\<exists>entries m. dev_input example_boot = Some entries \<and> m \<in> set entries \<and>
               regexec_js m \<and> q = device_path m)))
   \<and> regexec_js ''js123456789''
   \<and> (\<exists>m. device_path ''js123456789'' = ''/dev/input/'' @ m \<and> regexec_js m \<and>
          m = take 8 ''js123456789'')
   \<and> glfwPollJoystickEvents example_hotplug = Inr example_hotplugged
   \<and> (\<exists>extra. syscalls example_hotplugged = syscalls example_hotplug @ extra \<and>
         (\<forall>q k. Open q k \<in> set extra \<longrightarrow>
            (\<exists>m. m \<in> set (inotify_events example_hotplug) \<and> regexec_js m \<and>
               q = device_path m)))
   \<and> \<not> regexec_js ''mice''
   \<and> readdir_loop [''mice'', ''js0''] 0 example_world = readdir_loop [''js0''] 0 example_world"
proof -
  have h: "glfwInitJoysticksLinux example_boot = Inr (True, example_booted)" by code_simp
  have g: "glfwPollJoystickEvents example_hotplug = Inr example_hotplugged" by code_simp
  have x: "\<not> regexec_js ''mice''" by code_simp
  note v = discovery_opens_matching_names[where n="''mice''" and ns="[''js0'']" and c=0
      and w=example_world]
  note u = discovery_opens_matching_names[where w=example_hotplug and w'=example_hotplugged]
  have s: "syscalls example_booted = [Open ''/dev/input/js1'' 0, Open ''/dev/input/js0'' 1]"
    by code_simp
  have j: "joystick_names [''.'', ''..'', ''js1'', ''event0'', ''js0'', ''jsx''] = [''js1'', ''js0'']"
    by code_simp
  have m: "regexec_js ''js123456789''" by code_simp
  note t = discovery_opens_matching_names[where w=example_boot and r=True and w'=example_booted
      and n="''js123456789''"]
  from t u v h g s j m x show ?thesis by blast
qed


subsection \<open>The sort of the table\<close>

lemma packed_first_free: "packed c xs \<Longrightarrow> first_free xs = c"
proof (induction xs arbitrary: c)
  case Nil
  then show ?case by (simp add: packed_def)
next
  case (Cons j xs)
  show ?case
  proof (cases c)
    case 0
    with Cons.prems show ?thesis by (simp add: packed_def)
  next
    case (Suc c')
    with Cons.prems have "present j" "packed c' xs" by (simp_all add: packed_def)
    with Cons.IH[of c'] Suc show ?thesis by simp
  qed
qed

lemma packed_fill:
  assumes "packed c xs" and "c < length xs" and "present j"
  shows "packed (Suc c) (xs[c := j])"
proof -
  have "take (Suc c) (xs[c := j]) = take c xs @ [j]"
    using assms(2) by (simp add: take_Suc_conv_app_nth)
  moreover have "drop (Suc c) (xs[c := j]) = drop (Suc c) xs" by simp
  moreover have "list_all (\<lambda>j. \<not> present j) (drop (Suc c) xs)"
    using assms(1) unfolding packed_def list_all_iff
    by (metis Suc_n_not_le_n in_set_dropD le_cases set_drop_subset_set_drop subsetD)
  ultimately show ?thesis using assms by (simp add: packed_def)
qed

lemma openJoystickDevice_packed:
  assumes "openJoystickDevice p w = Inr (r, w')" and "packed c (js w)" and "table_ok (js w)"
  shows "packed (if r then c + 1 else c) (js w') \<and> table_ok (js w')"
  using assms(1)
proof (cases rule: openJoystickDevice_cases)
  case refused
  with assms show ?thesis by simp
next
  case failed
  with assms show ?thesis by simp
next
  case (old d n)
  with assms show ?thesis by simp
next
  case (opened d n)
  from packed_first_free[OF assms(2)] have ff: "first_free (js w) = c" .
  with opened(3,7) assms(2) have "packed (Suc c) (js w')" by (simp add: packed_fill)
  with opened(1) openJoystickDevice_table_ok[OF assms(1,3)] show ?thesis by simp
qed

lemma readdir_loop_packed:
  "readdir_loop ns c w = Inr (c', w') \<Longrightarrow> packed c (js w) \<Longrightarrow> table_ok (js w) \<Longrightarrow>
   packed c' (js w') \<and> table_ok (js w')"
proof (induction ns arbitrary: c w)
  case Nil
  then show ?case by simp
next
  case (Cons n ns)
  show ?case
  proof (cases "regexec_js n")
    case False
    with Cons show ?thesis by simp
  next
    case True
    with Cons.prems(1) obtain r w1 where
      o: "openJoystickDevice (device_path n) w = Inr (r, w1)"
      and h: "readdir_loop ns (if r then c + 1 else c) w1 = Inr (c', w')"
      by (auto split: sum.splits)
    from openJoystickDevice_packed[OF o Cons.prems(2,3)]
    have "packed (if r then c + 1 else c) (js w1)" "table_ok (js w1)" by simp_all
    with Cons.IH[OF h] show ?thesis by simp
  qed
qed

lemma compareJoysticks_paths:
  "path a \<noteq> None \<Longrightarrow> path b \<noteq> None \<Longrightarrow>
   compareJoysticks a b = Inr (glfw_strcmp (slot_path a) (slot_path b))"
  by (auto simp: compareJoysticks_def slot_path_def)

lemma qsort_insert_insort:
  "path x \<noteq> None \<Longrightarrow> \<forall>y \<in> set ys. path y \<noteq> None \<Longrightarrow>
   qsort_insert compareJoysticks x ys = Inr (insort_key slot_path x ys)"
  by (induction ys) (simp_all add: compareJoysticks_paths glfw_strcmp_le)

lemma glfw_qsort_sort_key:
  "\<forall>x \<in> set xs. path x \<noteq> None \<Longrightarrow>
   glfw_qsort compareJoysticks xs = Inr (sort_key slot_path xs)"
proof (induction xs)
  case Nil
  show ?case by simp
next
  case (Cons x xs)
  then have "glfw_qsort compareJoysticks xs = Inr (sort_key slot_path xs)" by simp
  moreover have "\<forall>y \<in> set (sort_key slot_path xs). path y \<noteq> None" using Cons.prems by simp
  ultimately show ?case using Cons.prems by (simp add: qsort_insert_insort)
qed



lemma all_free_packed: "all_free xs \<Longrightarrow> packed 0 xs \<and> table_ok xs"
  by (simp add: all_free_def packed_def table_ok_def list_all_iff)






subsection \<open>Executions without fault\<close>

lemma handle_event_fits: "fits j ev \<longleftrightarrow> (\<exists>j'. handle_event ev j = Inr j')"
  by (auto simp: fits_def handle_event_def Let_def store_def split: option.splits)

lemma fits_after_event: "handle_event ev j = Inr j' \<Longrightarrow> fits j' ev' = fits j ev'"
  by (auto simp: fits_def handle_event_def Let_def store_def split: option.splits if_splits)

lemma queue_fits_after_event: "handle_event ev j = Inr j' \<Longrightarrow> queue_fits j' q = queue_fits j q"
  by (induction j q rule: queue_fits.induct) (simp_all add: fits_after_event)

lemma read_events_total:
  assumes "jid < length (js w)"
    and "\<forall>d. map_of (fds w) (fd (js w ! jid)) = Some d \<longrightarrow> queue_fits (js w ! jid) (d_queue d)"
  shows "\<exists>w'. read_events jid w = Inr w'"
  using assms
proof (induction "pending (fd (js w ! jid)) w" arbitrary: w rule: less_induct)
  case less
  let ?n = "fd (js w ! jid)"
  obtain r w1 where sr: "sys_read ?n w = (r, w1)" by (cases "sys_read ?n w")
  from sr show ?case
  proof (cases rule: sys_read_cases)
    case closed
    with sr show ?thesis by (subst read_events.simps) simp
  next
    case (drained d)
    with sr show ?thesis by (subst read_events.simps) simp
  next
    case (popped d rs)
    show ?thesis
    proof (cases r)
      case (Failed e)
      with sr show ?thesis by (subst read_events.simps) simp
    next
      case (Event ev)
      with less.prems(2) popped(1,2) have f: "fits (js w ! jid) ev" and q: "queue_fits (js w ! jid) rs"
        by simp_all
      from f obtain j where he: "handle_event ev (js w ! jid) = Inr j"
        using handle_event_fits by blast
      let ?w2 = "w1\<lparr>js := (js w1)[jid := j]\<rparr>"
      have len: "jid < length (js ?w2)" using less.prems(1) popped(4) by simp
      have fdj: "fd (js ?w2 ! jid) = ?n"
        using handle_event_fd[OF he] less.prems(1) popped(4) by simp
      have pd: "pending (fd (js ?w2 ! jid)) ?w2 < pending ?n w"
        using sys_read_Event_pending[of ?n w ev w1] sr Event fdj by simp
      have "\<forall>d'. map_of (fds ?w2) (fd (js ?w2 ! jid)) = Some d' \<longrightarrow>
              queue_fits (js ?w2 ! jid) (d_queue d')"
        using fdj popped(3,4) less.prems(1) q queue_fits_after_event[OF he] by simp
      from less.hyps[OF pd len this] obtain w' where "read_events jid ?w2 = Inr w'" by blast
      with sr Event he popped(4) show ?thesis by (subst read_events.simps) simp
    qed
  qed
qed

lemma hotplug_events_total:
  "table_ok (js w) \<Longrightarrow> \<exists>w'. hotplug_events ns w = Inr w' \<and> table_ok (js w')"
proof (induction ns arbitrary: w)
  case Nil
  then show ?case by simp
next
  case (Cons n ns)
  show ?case
  proof (cases "regexec_js n")
    case False
    with Cons show ?thesis by simp
  next
    case True
    from openJoystickDevice_total[OF Cons.prems] obtain r w1 where
      o: "openJoystickDevice (device_path n) w = Inr (r, w1)" by blast
    from openJoystickDevice_table_ok[OF o Cons.prems] have "table_ok (js w1)" .
    from Cons.IH[OF this] o True show ?thesis by simp
  qed
qed

lemma readdir_loop_total:
  "table_ok (js w) \<Longrightarrow> \<exists>c' w'. readdir_loop ns c w = Inr (c', w')"
proof (induction ns arbitrary: w c)
  case Nil
  then show ?case by simp
next
  case (Cons n ns)
  show ?case
  proof (cases "regexec_js n")
    case False
    with Cons show ?thesis by simp
  next
    case True
    from openJoystickDevice_total[OF Cons.prems] obtain r w1 where
      o: "openJoystickDevice (device_path n) w = Inr (r, w1)" by blast
    from openJoystickDevice_table_ok[OF o Cons.prems] have "table_ok (js w1)" .
    from Cons.IH[OF this, of "if r then c + 1 else c"] o True show ?thesis by simp
  qed
qed

lemma glfwInitJoysticksLinux_total:
  assumes "all_free (js w)"
  shows "\<exists>r w'. glfwInitJoysticksLinux w = Inr (r, w')"
proof -
  define w3 where "w3 = add_watch (w\<lparr>inotify := ret_inotify_init1 w\<rparr>)"
  from all_free_packed[OF assms] have p3: "packed 0 (js w3)" and t3: "table_ok (js w3)"
    by (simp_all add: w3_def)
  show ?thesis
  proof (cases "dev_input w")
    case None
    then show ?thesis by (auto simp: glfwInitJoysticksLinux_def Let_def)
  next
    case (Some entries)
    from readdir_loop_total[OF t3] obtain cnt w4 where rd: "readdir_loop entries 0 w3 = Inr (cnt, w4)"
      by blast
    from readdir_loop_packed[OF rd p3 t3] have p4: "packed cnt (js w4)" and t4: "table_ok (js w4)"
      by simp_all
    have "\<forall>j \<in> set (take cnt (js w4)). path j \<noteq> None"
      using p4 t4 by (auto simp: packed_def table_ok_def list_all_iff dest: in_set_takeD)
    moreover have "dev_input w3 = dev_input w" by (simp add: w3_def)
    ultimately show ?thesis using Some rd glfw_qsort_sort_key[of "take cnt (js w4)"]
      by (auto simp: glfwInitJoysticksLinux_def Let_def w3_def[symmetric])
  qed
qed


lemma pollJoystickEvents_total:
  assumes "jid < length (js w)" and "inotify_events w = []"
    and "\<forall>d. map_of (fds w) (fd (js w ! jid)) = Some d \<longrightarrow> queue_fits (js w ! jid) (d_queue d)"
  shows "\<exists>r w'. pollJoystickEvents jid w = Inr (r, w')"
proof -
  from assms(2) have g: "glfwPollJoystickEvents w = Inr w"
    by (simp add: glfwPollJoystickEvents_def)
  from read_events_total[OF assms(1,3)] obtain w' where "read_events jid w = Inr w'" by blast
  with g assms(1) show ?thesis by (auto simp: pollJoystickEvents_def)
qed

end
